theory Spec2Isabelle
  imports Main "HOL-Library.Word" "HOL-Library.Sublist"
begin

section \<open>Witness stripping of a serialized transaction (strip\_witness.py)\<close>

text \<open>
  The script \<^verbatim>\<open>contracts/bridge/script/utils/strip_witness.py\<close> takes the bytes of a
  transaction, detects the two marker bytes \<open>00 01\<close> after the four version bytes, walks
  the inputs and the outputs with a cursor, and glues the version, the two walked
  ranges and the last four bytes together.  The model below works on the decoded bytes
  \<open>raw\<close>: \<^verbatim>\<open>bytes.fromhex\<close> on the way in and \<^verbatim>\<open>.hex()\<close> on the way out are the
  process boundary and are left out.  On the early return the source hands back its
  argument, whose bytes are \<open>raw\<close>.
\<close>

subsection \<open>Python bytes: indexing and slicing\<close>

type_synonym byte = "8 word"

text \<open>
  The only exception the two functions can raise is the \<^verbatim>\<open>IndexError\<close> of the
  subscript \<^verbatim>\<open>data[pos]\<close>.  Slices never raise: their bounds are clamped.
\<close>

datatype error = IndexError

text \<open>\<^verbatim>\<open>data[i]\<close>: a negative index counts from the end, anything else out of range raises.\<close>

definition py_index :: "'a list \<Rightarrow> int \<Rightarrow> error + 'a" where
  "py_index xs i =
     (let n = int (length xs)
      in if 0 \<le> i \<and> i < n then Inr (xs ! nat i)
         else if - n \<le> i \<and> i < 0 then Inr (xs ! nat (n + i))
         else Inl IndexError)"

text \<open>A slice bound of a sequence of length \<open>n\<close>: negative bounds count from the end, and
  the result is clamped to \<open>0..n\<close>.\<close>

definition py_bound :: "int \<Rightarrow> int \<Rightarrow> nat" where
  "py_bound n i = nat (if i < 0 then max 0 (n + i) else min i n)"

text \<open>\<^verbatim>\<open>data[i:j]\<close> and \<^verbatim>\<open>data[i:]\<close>.\<close>

definition py_slice :: "'a list \<Rightarrow> int \<Rightarrow> int \<Rightarrow> 'a list" where
  "py_slice xs i j =
     (let n = int (length xs); a = py_bound n i; b = py_bound n j
      in take (b - a) (drop a xs))"

definition py_slice_from :: "'a list \<Rightarrow> int \<Rightarrow> 'a list" where
  "py_slice_from xs i = drop (py_bound (int (length xs)) i) xs"

text \<open>\<^verbatim>\<open>int.from_bytes(bs, 'little')\<close>: the first byte is the least significant one; the
  empty sequence decodes to 0.\<close>

fun from_bytes_little :: "byte list \<Rightarrow> nat" where
  "from_bytes_little [] = 0"
| "from_bytes_little (b # bs) = unat b + 256 * from_bytes_little bs"

subsection \<open>The varint reader\<close>

text \<open>
  \<^verbatim>\<open>
  def read_varint(data, pos):
      first_byte = data[pos]
      if first_byte < 0xfd:
          return first_byte, 1
      elif first_byte == 0xfd:
          return int.from_bytes(data[pos+1:pos+3], 'little'), 3
      elif first_byte == 0xfe:
          return int.from_bytes(data[pos+1:pos+5], 'little'), 5
      else:  # 0xff
          return int.from_bytes(data[pos+1:pos+9], 'little'), 9
  \<close>
\<close>

definition read_varint :: "byte list \<Rightarrow> int \<Rightarrow> error + (nat \<times> nat)" where
  "read_varint data pos =
     (case py_index data pos of
        Inl e \<Rightarrow> Inl e
      | Inr first_byte \<Rightarrow>
          if first_byte < 0xfd then Inr (unat first_byte, 1)
          else if first_byte = 0xfd then
            Inr (from_bytes_little (py_slice data (pos + 1) (pos + 3)), 3)
          else if first_byte = 0xfe then
            Inr (from_bytes_little (py_slice data (pos + 1) (pos + 5)), 5)
          else
            Inr (from_bytes_little (py_slice data (pos + 1) (pos + 9)), 9))"

subsection \<open>The two walks\<close>

text \<open>
  The loop over the inputs, \<^verbatim>\<open>for i in range(input_count)\<close>, with the cursor \<open>pos\<close> as
  its state: 36 bytes of previous output, the script length, the script, 4 bytes of
  sequence number.  The loop variable is not used by the body, so the model counts the
  remaining iterations down.  The cursor starts at 0 and only grows, which is why it
  is a natural number.
\<close>

fun walk_inputs :: "byte list \<Rightarrow> nat \<Rightarrow> nat \<Rightarrow> error + nat" where
  "walk_inputs raw 0 pos = Inr pos"
| "walk_inputs raw (Suc n) pos =
     (case read_varint raw (int (pos + 36)) of
        Inl e \<Rightarrow> Inl e
      | Inr (script_len, varint_size) \<Rightarrow>
          walk_inputs raw n (pos + 36 + varint_size + script_len + 4))"

text \<open>The loop over the outputs: 8 bytes of value, the script length, the script.\<close>

fun walk_outputs :: "byte list \<Rightarrow> nat \<Rightarrow> nat \<Rightarrow> error + nat" where
  "walk_outputs raw 0 pos = Inr pos"
| "walk_outputs raw (Suc n) pos =
     (case read_varint raw (int (pos + 8)) of
        Inl e \<Rightarrow> Inl e
      | Inr (script_len, varint_size) \<Rightarrow>
          walk_outputs raw n (pos + 8 + varint_size + script_len))"

subsection \<open>The rewrite\<close>

text \<open>
  \<open>strip_witness_data\<close> follows the source statement by statement; the names are the
  source's.  The marker bytes \<^verbatim>\<open>raw[4:6]\<close> are read into \<^verbatim>\<open>marker_flag\<close> only to be
  printed.
\<close>

definition strip_witness_data :: "byte list \<Rightarrow> error + byte list" where
  "strip_witness_data raw =
     (if length raw < 6 \<or> py_slice raw 4 6 \<noteq> [0x00, 0x01] then Inr raw
      else
        let pos = (0::nat);
            version = py_slice raw (int pos) (int (pos + 4));
            pos = pos + 4;
            pos = pos + 2
        in case read_varint raw (int pos) of
             Inl e \<Rightarrow> Inl e
           | Inr (input_count, varint_size) \<Rightarrow>
               let pos = pos + varint_size;
                   inputs_start = pos - varint_size
               in case walk_inputs raw input_count pos of
                    Inl e \<Rightarrow> Inl e
                  | Inr pos \<Rightarrow>
                      let inputs_data = py_slice raw (int inputs_start) (int pos);
                          outputs_start = pos
                      in case read_varint raw (int pos) of
                           Inl e \<Rightarrow> Inl e
                         | Inr (output_count, varint_size) \<Rightarrow>
                             let pos = pos + varint_size
                             in case walk_outputs raw output_count pos of
                                  Inl e \<Rightarrow> Inl e
                                | Inr pos \<Rightarrow>
                                    let outputs_data =
                                          py_slice raw (int outputs_start) (int pos);
                                        locktime = py_slice_from raw (- 4);
                                        legacy_tx =
                                          version @ inputs_data @ outputs_data @ locktime
                                    in Inr legacy_tx)"

subsection \<open>Marker and byte ranges\<close>

text \<open>
  The guard of \<open>strip_witness_data\<close>, for a sequence of at least six bytes: the SegWit
  marker \<open>00\<close> and flag \<open>01\<close> after the four version bytes.
\<close>

definition has_marker :: "byte list \<Rightarrow> bool" where
  "has_marker raw \<longleftrightarrow> 6 \<le> length raw \<and> raw ! 4 = 0x00 \<and> raw ! 5 = 0x01"

text \<open>
  The two cursor positions that delimit the byte ranges of a marker-bearing \<open>raw\<close>:
  the cursor after the inputs loop (the end of \<^verbatim>\<open>inputs_data\<close>, which starts at 6, and
  the start of \<^verbatim>\<open>outputs_data\<close>) and the cursor after the outputs loop.  It is the
  cursor arithmetic of \<open>strip_witness_data\<close> without the slicing.
\<close>

definition section_ends :: "byte list \<Rightarrow> error + (nat \<times> nat)" where
  "section_ends raw =
     (case read_varint raw 6 of
        Inl e \<Rightarrow> Inl e
      | Inr (input_count, varint_size) \<Rightarrow>
          (case walk_inputs raw input_count (6 + varint_size) of
             Inl e \<Rightarrow> Inl e
           | Inr inputs_end \<Rightarrow>
               (case read_varint raw (int inputs_end) of
                  Inl e \<Rightarrow> Inl e
                | Inr (output_count, varint_size) \<Rightarrow>
                    (case walk_outputs raw output_count (inputs_end + varint_size) of
                       Inl e \<Rightarrow> Inl e
                     | Inr outputs_end \<Rightarrow> Inr (inputs_end, outputs_end)))))"

subsection \<open>Loop iterations\<close>

text \<open>
  The number of times the body of each loop is entered, for the same arguments as the
  walks: the body is entered once more whenever the previous pass did not raise.
\<close>

fun walk_inputs_iterations :: "byte list \<Rightarrow> nat \<Rightarrow> nat \<Rightarrow> nat" where
  "walk_inputs_iterations raw 0 pos = 0"
| "walk_inputs_iterations raw (Suc n) pos =
     (case read_varint raw (int (pos + 36)) of
        Inl e \<Rightarrow> 1
      | Inr (script_len, varint_size) \<Rightarrow>
          1 + walk_inputs_iterations raw n (pos + 36 + varint_size + script_len + 4))"

fun walk_outputs_iterations :: "byte list \<Rightarrow> nat \<Rightarrow> nat \<Rightarrow> nat" where
  "walk_outputs_iterations raw 0 pos = 0"
| "walk_outputs_iterations raw (Suc n) pos =
     (case read_varint raw (int (pos + 8)) of
        Inl e \<Rightarrow> 1
      | Inr (script_len, varint_size) \<Rightarrow>
          1 + walk_outputs_iterations raw n (pos + 8 + varint_size + script_len))"

subsection \<open>The loops as loops\<close>

text \<open>
  The walks above are recursions on the count, which end by construction.  To state
  that the loops of the source end, the same code is written once more with the
  loops as loops: the index \<open>i\<close> runs from 0, the test \<open>i < input_count\<close> is made
  before every pass, and every pass through a loop body uses up one unit of \<open>fuel\<close>.
  Running out of fuel is the value \<open>None\<close>; the fuel left over is handed from the
  first loop to the second.
\<close>

fun walk_inputs_fuel ::
  "nat \<Rightarrow> byte list \<Rightarrow> nat \<Rightarrow> nat \<Rightarrow> nat \<Rightarrow> (nat \<times> (error + nat)) option" where
  "walk_inputs_fuel 0 raw i input_count pos =
     (if i < input_count then None else Some (0, Inr pos))"
| "walk_inputs_fuel (Suc fuel) raw i input_count pos =
     (if i < input_count then
        (case read_varint raw (int (pos + 36)) of
           Inl e \<Rightarrow> Some (fuel, Inl e)
         | Inr (script_len, varint_size) \<Rightarrow>
             walk_inputs_fuel fuel raw (Suc i) input_count
               (pos + 36 + varint_size + script_len + 4))
      else Some (Suc fuel, Inr pos))"

fun walk_outputs_fuel ::
  "nat \<Rightarrow> byte list \<Rightarrow> nat \<Rightarrow> nat \<Rightarrow> nat \<Rightarrow> (nat \<times> (error + nat)) option" where
  "walk_outputs_fuel 0 raw i output_count pos =
     (if i < output_count then None else Some (0, Inr pos))"
| "walk_outputs_fuel (Suc fuel) raw i output_count pos =
     (if i < output_count then
        (case read_varint raw (int (pos + 8)) of
           Inl e \<Rightarrow> Some (fuel, Inl e)
         | Inr (script_len, varint_size) \<Rightarrow>
             walk_outputs_fuel fuel raw (Suc i) output_count
               (pos + 8 + varint_size + script_len))
      else Some (Suc fuel, Inr pos))"

text \<open>\<open>strip_witness_data\<close> statement by statement, with the two loops above.\<close>

definition strip_witness_data_fuel :: "nat \<Rightarrow> byte list \<Rightarrow> (error + byte list) option" where
  "strip_witness_data_fuel fuel raw =
     (if length raw < 6 \<or> py_slice raw 4 6 \<noteq> [0x00, 0x01] then Some (Inr raw)
      else
        let pos = (0::nat);
            version = py_slice raw (int pos) (int (pos + 4));
            pos = pos + 4;
            pos = pos + 2
        in case read_varint raw (int pos) of
             Inl e \<Rightarrow> Some (Inl e)
           | Inr (input_count, varint_size) \<Rightarrow>
               let pos = pos + varint_size;
                   inputs_start = pos - varint_size
               in case walk_inputs_fuel fuel raw 0 input_count pos of
                    None \<Rightarrow> None
                  | Some (fuel, Inl e) \<Rightarrow> Some (Inl e)
                  | Some (fuel, Inr pos) \<Rightarrow>
                      let inputs_data = py_slice raw (int inputs_start) (int pos);
                          outputs_start = pos
                      in case read_varint raw (int pos) of
                           Inl e \<Rightarrow> Some (Inl e)
                         | Inr (output_count, varint_size) \<Rightarrow>
                             let pos = pos + varint_size
                             in case walk_outputs_fuel fuel raw 0 output_count pos of
                                  None \<Rightarrow> None
                                | Some (fuel, Inl e) \<Rightarrow> Some (Inl e)
                                | Some (fuel, Inr pos) \<Rightarrow>
                                    let outputs_data =
                                          py_slice raw (int outputs_start) (int pos);
                                        locktime = py_slice_from raw (- 4);
                                        legacy_tx =
                                          version @ inputs_data @ outputs_data @ locktime
                                    in Some (Inr legacy_tx))"

text \<open>The number of passes through the two loop bodies that the rewrite of \<open>raw\<close>
  makes: those of the first loop, and those of the second when it is reached.\<close>

definition strip_iterations :: "byte list \<Rightarrow> nat" where
  "strip_iterations raw =
     (if length raw < 6 \<or> py_slice raw 4 6 \<noteq> [0x00, 0x01] then 0
      else case read_varint raw 6 of
             Inl e \<Rightarrow> 0
           | Inr (input_count, varint_size) \<Rightarrow>
               walk_inputs_iterations raw input_count (6 + varint_size) +
               (case walk_inputs raw input_count (6 + varint_size) of
                  Inl e \<Rightarrow> 0
                | Inr pos \<Rightarrow>
                    (case read_varint raw (int pos) of
                       Inl e \<Rightarrow> 0
                     | Inr (output_count, varint_size) \<Rightarrow>
                         walk_outputs_iterations raw output_count (pos + varint_size))))"

subsection \<open>The transaction format\<close>

text \<open>
  The docstring of \<^verbatim>\<open>strip_witness_data\<close> gives the two layouts:
  \<^verbatim>\<open>
  SegWit transaction format:          Legacy transaction format (what we need):
  - Version (4 bytes)                 - Version (4 bytes)
  - Marker (1 byte) = 0x00
  - Flag (1 byte) = 0x01
  - Input count (varint)              - Input count (varint)
  - Inputs...                         - Inputs...
  - Output count (varint)             - Output count (varint)
  - Outputs...                        - Outputs...
  - Witness data...
  - Locktime (4 bytes)                - Locktime (4 bytes)
  \<close>
  and the comments of the two loops give the fields of an input (previous output of
  32 + 4 bytes, script length, script, 4 bytes of sequence) and of an output (8 bytes
  of value, script length, script).  A valid tagged record is the SegWit
  serialization of a well-formed transaction; lemma \<open>valid_tagged_iff\<close> below shows
  that these are exactly the marker-bearing sequences on which both walks succeed
  and end at least four bytes before the end.

  A varint encoding \<open>enc\<close> of \<open>n\<close>: one byte below \<open>0xfd\<close> that is \<open>n\<close>, or \<open>0xfd\<close>,
  \<open>0xfe\<close>, \<open>0xff\<close> followed by 2, 4, 8 bytes holding \<open>n\<close> little-endian.  Encodings
  longer than needed are allowed, as the reader accepts them.
\<close>

definition is_varint :: "byte list \<Rightarrow> nat \<Rightarrow> bool" where
  "is_varint enc n \<longleftrightarrow>
     enc \<noteq> [] \<and>
     length enc = (if hd enc < 0xfd then 1 else if hd enc = 0xfd then 3
                   else if hd enc = 0xfe then 5 else 9) \<and>
     n = (if hd enc < 0xfd then unat (hd enc) else from_bytes_little (tl enc))"

record txin =
  prev_output :: "byte list"
  in_script_len :: "byte list"
  in_script :: "byte list"
  in_sequence :: "byte list"

record txout =
  out_value :: "byte list"
  out_script_len :: "byte list"
  out_script :: "byte list"

text \<open>The two counts and the script lengths are kept as their encodings; the witness
  data is an uninterpreted byte string, as the code never looks into it.\<close>

record segwit_tx =
  tx_version :: "byte list"
  tx_input_count :: "byte list"
  tx_inputs :: "txin list"
  tx_output_count :: "byte list"
  tx_outputs :: "txout list"
  tx_witness :: "byte list"
  tx_locktime :: "byte list"

definition wf_txin :: "txin \<Rightarrow> bool" where
  "wf_txin i \<longleftrightarrow>
     length (prev_output i) = 36 \<and>
     is_varint (in_script_len i) (length (in_script i)) \<and>
     length (in_sequence i) = 4"

definition wf_txout :: "txout \<Rightarrow> bool" where
  "wf_txout out \<longleftrightarrow>
     length (out_value out) = 8 \<and>
     is_varint (out_script_len out) (length (out_script out))"

definition wf_tx :: "segwit_tx \<Rightarrow> bool" where
  "wf_tx t \<longleftrightarrow>
     length (tx_version t) = 4 \<and>
     is_varint (tx_input_count t) (length (tx_inputs t)) \<and>
     list_all wf_txin (tx_inputs t) \<and>
     is_varint (tx_output_count t) (length (tx_outputs t)) \<and>
     list_all wf_txout (tx_outputs t) \<and>
     length (tx_locktime t) = 4"

definition ser_txin :: "txin \<Rightarrow> byte list" where
  "ser_txin i = prev_output i @ in_script_len i @ in_script i @ in_sequence i"

definition ser_txout :: "txout \<Rightarrow> byte list" where
  "ser_txout out = out_value out @ out_script_len out @ out_script out"

text \<open>A section is the count followed by its records: the byte range that the code
  cuts out starts at the count's own encoding.\<close>

definition input_section :: "segwit_tx \<Rightarrow> byte list" where
  "input_section t = tx_input_count t @ concat (map ser_txin (tx_inputs t))"

definition output_section :: "segwit_tx \<Rightarrow> byte list" where
  "output_section t = tx_output_count t @ concat (map ser_txout (tx_outputs t))"

definition serialize_segwit :: "segwit_tx \<Rightarrow> byte list" where
  "serialize_segwit t =
     tx_version t @ [0x00, 0x01] @ input_section t @ output_section t @
     tx_witness t @ tx_locktime t"

definition serialize_legacy :: "segwit_tx \<Rightarrow> byte list" where
  "serialize_legacy t =
     tx_version t @ input_section t @ output_section t @ tx_locktime t"

subsection \<open>Sample records\<close>

text \<open>A transaction with one input (empty script), one output (a script of two
  bytes) and three bytes of witness data, with its two serializations written out.\<close>

definition sample_tx :: segwit_tx where
  "sample_tx =
     \<lparr>tx_version = [0x02, 0x00, 0x00, 0x00],
      tx_input_count = [0x01],
      tx_inputs =
        [\<lparr>prev_output =
            [0xa0, 0xa1, 0xa2, 0xa3, 0xa4, 0xa5, 0xa6, 0xa7,
             0xa8, 0xa9, 0xaa, 0xab, 0xac, 0xad, 0xae, 0xaf,
             0xb0, 0xb1, 0xb2, 0xb3, 0xb4, 0xb5, 0xb6, 0xb7,
             0xb8, 0xb9, 0xba, 0xbb, 0xbc, 0xbd, 0xbe, 0xbf,
             0x03, 0x00, 0x00, 0x00],
          in_script_len = [0x00],
          in_script = [],
          in_sequence = [0xfe, 0xff, 0xff, 0xff]\<rparr>],
      tx_output_count = [0x01],
      tx_outputs =
        [\<lparr>out_value = [0x10, 0x27, 0x00, 0x00, 0x00, 0x00, 0x00, 0x00],
          out_script_len = [0x02],
          out_script = [0x51, 0x52]\<rparr>],
      tx_witness = [0x01, 0x01, 0x51],
      tx_locktime = [0x11, 0x22, 0x33, 0x44]\<rparr>"

definition sample_raw :: "byte list" where
  "sample_raw =
     [0x02, 0x00, 0x00, 0x00, 0x00, 0x01, 0x01,
      0xa0, 0xa1, 0xa2, 0xa3, 0xa4, 0xa5, 0xa6, 0xa7,
      0xa8, 0xa9, 0xaa, 0xab, 0xac, 0xad, 0xae, 0xaf,
      0xb0, 0xb1, 0xb2, 0xb3, 0xb4, 0xb5, 0xb6, 0xb7,
      0xb8, 0xb9, 0xba, 0xbb, 0xbc, 0xbd, 0xbe, 0xbf,
      0x03, 0x00, 0x00, 0x00, 0x00, 0xfe, 0xff, 0xff, 0xff,
      0x01, 0x10, 0x27, 0x00, 0x00, 0x00, 0x00, 0x00, 0x00, 0x02, 0x51, 0x52,
      0x01, 0x01, 0x51,
      0x11, 0x22, 0x33, 0x44]"

definition sample_legacy :: "byte list" where
  "sample_legacy =
     [0x02, 0x00, 0x00, 0x00, 0x01,
      0xa0, 0xa1, 0xa2, 0xa3, 0xa4, 0xa5, 0xa6, 0xa7,
      0xa8, 0xa9, 0xaa, 0xab, 0xac, 0xad, 0xae, 0xaf,
      0xb0, 0xb1, 0xb2, 0xb3, 0xb4, 0xb5, 0xb6, 0xb7,
      0xb8, 0xb9, 0xba, 0xbb, 0xbc, 0xbd, 0xbe, 0xbf,
      0x03, 0x00, 0x00, 0x00, 0x00, 0xfe, 0xff, 0xff, 0xff,
      0x01, 0x10, 0x27, 0x00, 0x00, 0x00, 0x00, 0x00, 0x00, 0x02, 0x51, 0x52,
      0x11, 0x22, 0x33, 0x44]"

text \<open>The smallest tagged record: no inputs, no outputs, no witness data.\<close>

definition empty_tx :: segwit_tx where
  "empty_tx =
     \<lparr>tx_version = [0x01, 0x00, 0x00, 0x00],
      tx_input_count = [0x00],
      tx_inputs = [],
      tx_output_count = [0x00],
      tx_outputs = [],
      tx_witness = [],
      tx_locktime = [0x11, 0x22, 0x33, 0x44]\<rparr>"

text \<open>No inputs and one output of value 0 with an empty script.\<close>

definition one_output_tx :: segwit_tx where
  "one_output_tx =
     \<lparr>tx_version = [0x01, 0x00, 0x00, 0x00],
      tx_input_count = [0x00],
      tx_inputs = [],
      tx_output_count = [0x01],
      tx_outputs =
        [\<lparr>out_value = [0x00, 0x00, 0x00, 0x00, 0x00, 0x00, 0x00, 0x00],
          out_script_len = [0x00],
          out_script = []\<rparr>],
      tx_witness = [],
      tx_locktime = [0x00, 0x00, 0x00, 0x00]\<rparr>"

text \<open>A marker-bearing sequence of 19 bytes whose only output announces a script of
  5 bytes where 2 are left: the cursor ends at 22.\<close>

definition overrun_raw :: "byte list" where
  "overrun_raw =
     [0x01, 0x00, 0x00, 0x00, 0x00, 0x01, 0x00,
      0x01, 0x00, 0x00, 0x00, 0x00, 0x00, 0x00, 0x00, 0x00, 0x05, 0xaa, 0xbb]"

section \<open>Slices and the varint reader at natural offsets\<close>

text \<open>For a cursor that is a natural number, Python's slices are \<open>take\<close> and \<open>drop\<close>.\<close>

lemma py_slice_nat: "py_slice xs (int a) (int b) = take (b - a) (drop a xs)"
proof (cases "a < length xs")
  case True
  then show ?thesis
    by (simp add: py_slice_def py_bound_def Let_def min_def take_all_iff)
next
  case False
  then show ?thesis by (simp add: py_slice_def py_bound_def Let_def min_def)
qed

lemma py_slice_off:
  "py_slice xs (int p + int a) (int p + int b) = take (b - a) (drop (p + a) xs)"
  using py_slice_nat [of xs "p + a" "p + b"] by simp

lemma py_slice_version: "py_slice raw 0 4 = take 4 raw"
  using py_slice_nat [of raw 0 4] by simp

lemma py_slice_inputs: "py_slice raw 6 (int b) = take (b - 6) (drop 6 raw)"
  using py_slice_nat [of raw 6 b] by simp

lemma py_slice_from_last4: "py_slice_from xs (- 4) = drop (length xs - 4) xs"
  by (simp add: py_slice_from_def py_bound_def max_def nat_diff_distrib)

lemma py_index_nat:
  "py_index xs (int p) = (if p < length xs then Inr (xs ! p) else Inl IndexError)"
  by (simp add: py_index_def Let_def)

lemma py_index_neg:
  assumes "- int (length xs) \<le> i" and "i < 0"
  shows "py_index xs i = Inr (xs ! nat (int (length xs) + i))"
  using assms by (simp add: py_index_def Let_def)

lemma py_slice_neg:
  assumes lo: "- int (length xs) \<le> pos" and hi: "pos < 0"
  defines "q \<equiv> nat (int (length xs) + pos)"
  shows "py_slice xs (pos + 1) (pos + 1 + int k) =
         (if pos + 1 + int k < 0 then take k (drop (q + 1) xs)
          else if pos = - 1 then take k xs
          else take (nat (pos + 1 + int k) - (q + 1)) (drop (q + 1) xs))"
proof -
  have q: "int q = int (length xs) + pos"
    using lo by (simp add: q_def)
  show ?thesis
  proof (cases "pos = - 1")
    case True
    then show ?thesis
      by (simp add: py_slice_def py_bound_def Let_def min_def)
  next
    case False
    with hi have p1: "pos + 1 < 0" by simp
    have a: "py_bound (int (length xs)) (pos + 1) = q + 1"
      using p1 lo by (simp add: py_bound_def q_def max_def)
    show ?thesis
    proof (cases "pos + 1 + int k < 0")
      case True
      have b: "py_bound (int (length xs)) (pos + 1 + int k) = q + 1 + k"
        using True lo by (simp add: py_bound_def q_def max_def)
      show ?thesis
        using True False by (simp add: py_slice_def Let_def a b)
    next
      case nonneg: False
      have b: "py_bound (int (length xs)) (pos + 1 + int k) =
               min (nat (pos + 1 + int k)) (length xs)"
        using nonneg by (simp add: py_bound_def min_def)
      have "take (min (nat (pos + 1 + int k)) (length xs) - (q + 1)) (drop (q + 1) xs) =
            take (nat (pos + 1 + int k) - (q + 1)) (drop (q + 1) xs)"
        by (simp add: min_def)
      then show ?thesis
        using nonneg False by (simp add: py_slice_def Let_def a b)
    qed
  qed
qed

lemma read_varint_nat:
  "read_varint data (int p) =
     (if p < length data then
        (if data ! p < 0xfd then Inr (unat (data ! p), 1)
         else if data ! p = 0xfd then Inr (from_bytes_little (take 2 (drop (Suc p) data)), 3)
         else if data ! p = 0xfe then Inr (from_bytes_little (take 4 (drop (Suc p) data)), 5)
         else Inr (from_bytes_little (take 8 (drop (Suc p) data)), 9))
      else Inl IndexError)"
  using py_slice_off [of data p 1 3] py_slice_off [of data p 1 5] py_slice_off [of data p 1 9]
  by (simp add: read_varint_def py_index_nat)

lemma read_varint_Inr:
  assumes "read_varint data (int p) = Inr (v, w)"
  shows "p < length data" and "1 \<le> w"
  using assms by (auto simp: read_varint_nat split: if_splits)

lemma from_bytes_little_sum:
  "from_bytes_little bs = (\<Sum>i<length bs. unat (bs ! i) * 256 ^ i)"
proof (induction bs)
  case Nil
  show ?case by simp
next
  case (Cons a bs)
  have "(\<Sum>i<length (a # bs). unat ((a # bs) ! i) * 256 ^ i) =
        unat a + (\<Sum>i<length bs. unat (bs ! i) * 256 ^ Suc i)"
    by (simp add: sum.lessThan_Suc_shift del: sum.lessThan_Suc)
  also have "\<dots> = unat a + 256 * (\<Sum>i<length bs. unat (bs ! i) * 256 ^ i)"
    by (simp add: sum_distrib_left mult.left_commute)
  finally show ?case using Cons.IH by simp
qed

lemma from_bytes_little_slice:
  assumes "p + k \<le> length data"
  shows "from_bytes_little (take k (drop p data)) = (\<Sum>i<k. unat (data ! (p + i)) * 256 ^ i)"
  using assms by (simp add: from_bytes_little_sum)

lemma take_Suc_drop:
  "p < length xs \<Longrightarrow> take (Suc k) (drop p xs) = xs ! p # take k (drop (Suc p) xs)"
  by (simp add: Cons_nth_drop_Suc [symmetric])

lemma slice_map_nth:
  "m + n \<le> length xs \<Longrightarrow> take n (drop m xs) = map ((!) xs) [m..<m + n]"
  by (simp add: list_eq_iff_nth_eq)

lemma drop_last_append:
  assumes "a \<noteq> []"
  shows "drop (length a - 1) (a @ b) = last a # b"
proof -
  have "a = butlast a @ [last a]"
    using assms by simp
  then have "drop (length (butlast a)) (a @ b) = drop (length (butlast a)) ((butlast a @ [last a]) @ b)"
    by simp
  also have "\<dots> = last a # b"
    by (simp only: append_assoc drop_append append.simps) simp
  finally show ?thesis by simp
qed

lemma sublist_slice: "sublist (take n (drop m xs)) xs"
proof -
  have "xs = take m xs @ take n (drop m xs) @ drop n (drop m xs)"
    by (simp only: append_take_drop_id)
  then show ?thesis
    unfolding sublist_def by blast
qed

lemma sublist_py_slice: "sublist (py_slice xs i j) xs"
  by (simp add: py_slice_def Let_def sublist_slice)

lemma sublist_py_slice_from: "sublist (py_slice_from xs i) xs"
  by (simp add: py_slice_from_def)

lemma error_cases: "(e :: error) = IndexError"
  by (cases e)

section \<open>The rewrite in terms of the two cursor positions\<close>

lemma marker_slice:
  assumes "6 \<le> length raw"
  shows "py_slice raw 4 6 = [raw ! 4, raw ! 5]"
proof -
  have "py_slice raw 4 6 = take 2 (drop 4 raw)"
    using py_slice_nat [of raw 4 6] by simp
  also have "\<dots> = [raw ! 4, raw ! 5]"
    using assms by (simp add: numeral_2_eq_2 take_Suc_drop)
  finally show ?thesis .
qed

lemma has_marker_guard:
  "has_marker raw \<longleftrightarrow> \<not> (length raw < 6 \<or> py_slice raw 4 6 \<noteq> [0x00, 0x01])"
  by (cases "6 \<le> length raw") (auto simp: has_marker_def marker_slice)

lemma strip_no_marker: "\<not> has_marker raw \<Longrightarrow> strip_witness_data raw = Inr raw"
  by (cases "6 \<le> length raw") (simp_all add: strip_witness_data_def has_marker_def marker_slice)

lemma strip_marker:
  assumes "has_marker raw"
  shows "strip_witness_data raw =
         (case section_ends raw of
            Inl e \<Rightarrow> Inl e
          | Inr (inputs_end, outputs_end) \<Rightarrow>
              Inr (take 4 raw @ take (inputs_end - 6) (drop 6 raw) @
                   take (outputs_end - inputs_end) (drop inputs_end raw) @
                   drop (length raw - 4) raw))"
proof -
  from assms have g: "\<not> (length raw < 6 \<or> py_slice raw 4 6 \<noteq> [0x00, 0x01])"
    by (simp add: has_marker_guard)
  show ?thesis
    unfolding strip_witness_data_def section_ends_def
    by (simp only: g if_False)
       (simp add: Let_def py_slice_version py_slice_inputs py_slice_nat py_slice_from_last4
          split: sum.splits prod.splits)
qed

section \<open>Walking a serialized transaction\<close>

lemma is_varint_single:
  assumes "is_varint enc n" and "hd enc < 0xfd"
  shows "enc = [hd enc]" and "n = unat (hd enc)"
proof -
  from assms have "length enc = 1" by (simp add: is_varint_def)
  then show "enc = [hd enc]" by (cases enc) simp_all
  from assms show "n = unat (hd enc)" by (simp add: is_varint_def)
qed

lemma read_varint_encoded:
  assumes "is_varint enc n"
  shows "read_varint (pre @ enc @ rest) (int (length pre)) = Inr (n, length enc)"
proof -
  from assms obtain d bs where enc: "enc = d # bs"
    by (cases enc) (simp_all add: is_varint_def)
  have nth: "(pre @ enc @ rest) ! length pre = d"
    by (simp add: enc)
  have drop: "drop (Suc (length pre)) (pre @ enc @ rest) = bs @ rest"
    by (simp add: enc)
  from assms show ?thesis
    unfolding read_varint_nat nth drop
    by (auto simp: enc is_varint_def split: if_splits)
qed

lemma walk_inputs_serialized:
  assumes "list_all wf_txin ins"
  shows "walk_inputs (pre @ concat (map ser_txin ins) @ rest) (length ins) (length pre) =
         Inr (length pre + length (concat (map ser_txin ins)))"
  using assms
proof (induction ins arbitrary: pre)
  case Nil
  show ?case by simp
next
  case (Cons i ins)
  from Cons.prems have wf: "wf_txin i" and rest_wf: "list_all wf_txin ins"
    by simp_all
  let ?data = "pre @ concat (map ser_txin (i # ins)) @ rest"
  have data1: "?data = (pre @ prev_output i) @ in_script_len i @
                 (in_script i @ in_sequence i @ concat (map ser_txin ins) @ rest)"
    by (simp add: ser_txin_def)
  have data2: "?data = (pre @ ser_txin i) @ concat (map ser_txin ins) @ rest"
    by simp
  have pos: "length pre + 36 = length (pre @ prev_output i)"
    using wf by (simp add: wf_txin_def)
  have rd: "read_varint ?data (int (length pre + 36)) =
            Inr (length (in_script i), length (in_script_len i))"
    unfolding pos data1 using wf by (intro read_varint_encoded) (simp add: wf_txin_def)
  have len: "length pre + 36 + length (in_script_len i) + length (in_script i) + 4 =
             length (pre @ ser_txin i)"
    using wf by (simp add: wf_txin_def ser_txin_def)
  have "walk_inputs ?data (length (i # ins)) (length pre) =
        walk_inputs ?data (length ins) (length (pre @ ser_txin i))"
    by (simp only: list.size walk_inputs.simps rd sum.case prod.case len add_Suc_right add_0_right)
  also have "\<dots> = Inr (length (pre @ ser_txin i) + length (concat (map ser_txin ins)))"
    unfolding data2 by (rule Cons.IH [OF rest_wf])
  finally show ?case by simp
qed

lemma walk_outputs_serialized:
  assumes "list_all wf_txout outs"
  shows "walk_outputs (pre @ concat (map ser_txout outs) @ rest) (length outs) (length pre) =
         Inr (length pre + length (concat (map ser_txout outs)))"
  using assms
proof (induction outs arbitrary: pre)
  case Nil
  show ?case by simp
next
  case (Cons out outs)
  from Cons.prems have wf: "wf_txout out" and rest_wf: "list_all wf_txout outs"
    by simp_all
  let ?data = "pre @ concat (map ser_txout (out # outs)) @ rest"
  have data1: "?data = (pre @ out_value out) @ out_script_len out @
                 (out_script out @ concat (map ser_txout outs) @ rest)"
    by (simp add: ser_txout_def)
  have data2: "?data = (pre @ ser_txout out) @ concat (map ser_txout outs) @ rest"
    by simp
  have pos: "length pre + 8 = length (pre @ out_value out)"
    using wf by (simp add: wf_txout_def)
  have rd: "read_varint ?data (int (length pre + 8)) =
            Inr (length (out_script out), length (out_script_len out))"
    unfolding pos data1 using wf by (intro read_varint_encoded) (simp add: wf_txout_def)
  have len: "length pre + 8 + length (out_script_len out) + length (out_script out) =
             length (pre @ ser_txout out)"
    using wf by (simp add: wf_txout_def ser_txout_def)
  have "walk_outputs ?data (length (out # outs)) (length pre) =
        walk_outputs ?data (length outs) (length (pre @ ser_txout out))"
    by (simp only: list.size walk_outputs.simps rd sum.case prod.case len add_Suc_right add_0_right)
  also have "\<dots> = Inr (length (pre @ ser_txout out) + length (concat (map ser_txout outs)))"
    unfolding data2 by (rule Cons.IH [OF rest_wf])
  finally show ?case by simp
qed

text \<open>Whatever follows the output section, the cursor ends right after it.\<close>

lemma section_ends_parts:
  assumes v: "length v = 4"
    and ic: "is_varint ic (length ins)" and ins: "list_all wf_txin ins"
    and oc: "is_varint oc (length outs)" and outs: "list_all wf_txout outs"
  defines "isec \<equiv> ic @ concat (map ser_txin ins)"
    and "osec \<equiv> oc @ concat (map ser_txout outs)"
  shows "section_ends (v @ [0x00, 0x01] @ isec @ osec @ rest) =
         Inr (6 + length isec, 6 + length isec + length osec)"
proof -
  let ?raw = "v @ [0x00, 0x01] @ isec @ osec @ rest"
  have six: "(6::int) = int (length (v @ [0x00, 0x01 :: byte]))"
    using v by simp
  have r1: "read_varint ?raw 6 = Inr (length ins, length ic)"
  proof -
    have raw: "?raw = (v @ [0x00, 0x01]) @ ic @ (concat (map ser_txin ins) @ osec @ rest)"
      by (simp add: isec_def)
    show ?thesis
      unfolding six by (subst raw) (rule read_varint_encoded [OF ic])
  qed
  have w1: "walk_inputs ?raw (length ins) (6 + length ic) = Inr (6 + length isec)"
  proof -
    have raw: "?raw = (v @ [0x00, 0x01] @ ic) @ concat (map ser_txin ins) @ (osec @ rest)"
      by (simp add: isec_def)
    have pos: "6 + length ic = length (v @ [0x00, 0x01] @ ic)"
      using v by simp
    show ?thesis
      unfolding pos
      by (subst raw, subst walk_inputs_serialized [OF ins]) (simp add: isec_def v)
  qed
  have r2: "read_varint ?raw (int (6 + length isec)) = Inr (length outs, length oc)"
  proof -
    have raw: "?raw = (v @ [0x00, 0x01] @ isec) @ oc @ (concat (map ser_txout outs) @ rest)"
      by (simp add: osec_def)
    have pos: "6 + length isec = length (v @ [0x00, 0x01] @ isec)"
      using v by simp
    show ?thesis
      unfolding pos by (subst raw) (rule read_varint_encoded [OF oc])
  qed
  have w2: "walk_outputs ?raw (length outs) (6 + length isec + length oc) =
            Inr (6 + length isec + length osec)"
  proof -
    have raw: "?raw = (v @ [0x00, 0x01] @ isec @ oc) @ concat (map ser_txout outs) @ rest"
      by (simp add: osec_def)
    have pos: "6 + length isec + length oc = length (v @ [0x00, 0x01] @ isec @ oc)"
      using v by simp
    show ?thesis
      unfolding pos
      by (subst raw, subst walk_outputs_serialized [OF outs]) (simp add: osec_def v)
  qed
  show ?thesis
    unfolding section_ends_def
    by (simp only: r1 w1 r2 w2 sum.case prod.case)
qed

lemma strip_parts:
  fixes rest :: "byte list"
  assumes v: "length v = 4"
    and ic: "is_varint ic (length ins)" and ins: "list_all wf_txin ins"
    and oc: "is_varint oc (length outs)" and outs: "list_all wf_txout outs"
  defines "isec \<equiv> ic @ concat (map ser_txin ins)"
    and "osec \<equiv> oc @ concat (map ser_txout outs)"
  defines "raw \<equiv> v @ [0x00, 0x01] @ isec @ osec @ rest"
  shows "strip_witness_data raw = Inr (v @ isec @ osec @ drop (length raw - 4) raw)"
proof -
  have m: "has_marker raw"
    using v by (simp add: has_marker_def raw_def nth_append)
  have ends: "section_ends raw = Inr (6 + length isec, 6 + length isec + length osec)"
    unfolding raw_def isec_def osec_def by (rule section_ends_parts [OF v ic ins oc outs])
  have p1: "take 4 raw = v"
    using v by (simp add: raw_def)
  have d6: "drop 6 raw = isec @ osec @ rest"
    using v by (simp add: raw_def)
  have d2: "drop (6 + length isec) raw = osec @ rest"
    using v by (simp add: raw_def)
  show ?thesis
    unfolding strip_marker [OF m] ends
    by (simp add: p1 d6 d2)
qed

lemma wf_tx_parts:
  assumes "wf_tx t"
  shows "length (tx_version t) = 4"
    and "is_varint (tx_input_count t) (length (tx_inputs t))"
    and "list_all wf_txin (tx_inputs t)"
    and "is_varint (tx_output_count t) (length (tx_outputs t))"
    and "list_all wf_txout (tx_outputs t)"
    and "length (tx_locktime t) = 4"
  using assms by (simp_all add: wf_tx_def)

lemma section_ends_serialized:
  assumes "wf_tx t"
  shows "section_ends (serialize_segwit t) =
         Inr (6 + length (input_section t),
              6 + length (input_section t) + length (output_section t))"
  unfolding serialize_segwit_def input_section_def output_section_def
  by (rule section_ends_parts [OF wf_tx_parts(1-5) [OF assms]])

text \<open>The rewrite turns the SegWit serialization into the legacy one.\<close>

lemma strip_serialized:
  assumes "wf_tx t"
  shows "strip_witness_data (serialize_segwit t) = Inr (serialize_legacy t)"
proof -
  have "strip_witness_data (serialize_segwit t) =
        Inr (tx_version t @ input_section t @ output_section t @
             drop (length (serialize_segwit t) - 4) (serialize_segwit t))"
    unfolding serialize_segwit_def input_section_def output_section_def
    by (rule strip_parts [OF wf_tx_parts(1-5) [OF assms]])
  moreover have "drop (length (serialize_segwit t) - 4) (serialize_segwit t) = tx_locktime t"
    using wf_tx_parts(6) [OF assms] by (simp add: serialize_segwit_def)
  ultimately show ?thesis
    by (simp add: serialize_legacy_def)
qed

lemma strip_serialized_truncated:
  assumes "wf_tx t"
  shows "strip_witness_data (butlast (serialize_segwit t)) =
         Inr (tx_version t @ input_section t @ output_section t @
              drop (length (serialize_segwit t) - 5) (butlast (serialize_segwit t)))"
proof -
  have ne: "tx_locktime t \<noteq> []"
    using wf_tx_parts(6) [OF assms] by auto
  have bl: "butlast (serialize_segwit t) =
        tx_version t @ [0x00, 0x01] @ input_section t @ output_section t @
        (tx_witness t @ butlast (tx_locktime t))"
    using ne by (simp add: serialize_segwit_def butlast_append)
  have "strip_witness_data (butlast (serialize_segwit t)) =
        Inr (tx_version t @ input_section t @ output_section t @
             drop (length (butlast (serialize_segwit t)) - 4) (butlast (serialize_segwit t)))"
    unfolding bl input_section_def output_section_def
    by (rule strip_parts [OF wf_tx_parts(1-5) [OF assms]])
  then show ?thesis by simp
qed

lemma length_serialize_segwit:
  "wf_tx t \<Longrightarrow> length (serialize_segwit t) =
     10 + length (input_section t) + length (output_section t) + length (tx_witness t)"
  by (simp add: serialize_segwit_def wf_tx_def)

lemma length_serialize_legacy:
  "wf_tx t \<Longrightarrow> length (serialize_legacy t) =
     8 + length (input_section t) + length (output_section t)"
  by (simp add: serialize_legacy_def wf_tx_def)

lemma legacy_no_marker:
  assumes wf: "wf_tx t"
    and nm: "\<not> (tx_input_count t = [0x00] \<and> tx_output_count t = [0x01])"
  shows "\<not> has_marker (serialize_legacy t)"
proof
  assume m: "has_marker (serialize_legacy t)"
  note parts = wf_tx_parts [OF wf]
  let ?y = "serialize_legacy t"
  have ic_ne: "tx_input_count t \<noteq> []" and oc_ne: "tx_output_count t \<noteq> []"
    using parts(2,4) by (simp_all add: is_varint_def)
  have y4: "?y ! 4 = hd (tx_input_count t)"
    using parts(1) ic_ne
    by (simp add: serialize_legacy_def input_section_def nth_append hd_conv_nth)
  from m have "hd (tx_input_count t) = 0x00"
    using y4 by (simp add: has_marker_def)
  then have lt: "hd (tx_input_count t) < 0xfd" by simp
  have ic: "tx_input_count t = [0x00]" and n0: "length (tx_inputs t) = 0"
    using is_varint_single [OF parts(2) lt] \<open>hd (tx_input_count t) = 0x00\<close> by simp_all
  have y5: "?y ! 5 = hd (tx_output_count t)"
    using parts(1) oc_ne n0 ic
    by (simp add: serialize_legacy_def input_section_def output_section_def nth_append
        hd_conv_nth)
  from m have h1: "hd (tx_output_count t) = 0x01"
    using y5 by (simp add: has_marker_def)
  then have lt': "hd (tx_output_count t) < 0xfd" by simp
  have "tx_output_count t = [0x01]"
    using is_varint_single(1) [OF parts(4) lt'] h1 by simp
  with ic nm show False by simp
qed

section \<open>Valid tagged records are the sequences walked within bounds\<close>

text \<open>
  The converse of the lemmas above: when the two walks of a marker-bearing sequence
  succeed and leave at least four bytes after the outputs, the sequence is the SegWit
  serialization of a well-formed transaction.  So the valid tagged records are
  exactly the sequences on which the cursor of the code stays before the trailer.
\<close>

lemma slice_append:
  "take a (drop p xs) @ take b (drop (p + a) xs) = take (a + b) (drop p xs)"
  by (simp add: take_add add.commute)

lemma slice_then_rest:
  assumes "a \<le> b"
  shows "take (b - a) (drop a xs) @ drop b xs = drop a xs"
proof -
  have "drop (b - a) (drop a xs) = drop b xs"
    using assms by simp
  then show ?thesis
    using append_take_drop_id [of "b - a" "drop a xs"] by simp
qed

lemma slice_split:
  assumes "a \<le> b" and "b \<le> c"
  shows "take (c - a) (drop a xs) = take (b - a) (drop a xs) @ take (c - b) (drop b xs)"
proof -
  have "take (b - a) (drop a xs) @ take (c - b) (drop (a + (b - a)) xs) =
        take ((b - a) + (c - b)) (drop a xs)"
    by (rule slice_append)
  moreover have "a + (b - a) = b" "(b - a) + (c - b) = c - a"
    using assms by simp_all
  ultimately show ?thesis by simp
qed

lemma read_varint_is_varint:
  assumes rd: "read_varint raw (int p) = Inr (n, w)" and le: "p + w \<le> length raw"
  shows "is_varint (take w (drop p raw)) n"
proof -
  from rd have p: "p < length raw" and w: "1 \<le> w"
    by (rule read_varint_Inr)+
  obtain k where k: "w = Suc k"
    using w by (cases w) simp_all
  have enc: "take w (drop p raw) = raw ! p # take k (drop (Suc p) raw)"
    unfolding k by (rule take_Suc_drop [OF p])
  have len: "length (take k (drop (Suc p) raw)) = k"
    using le k by simp
  from rd p le show ?thesis
    unfolding enc is_varint_def
    by (auto simp: read_varint_nat k split: if_splits)
qed

lemma walk_inputs_mono: "walk_inputs raw n pos = Inr p \<Longrightarrow> pos \<le> p"
proof (induction n arbitrary: pos)
  case 0
  then show ?case by simp
next
  case (Suc n)
  show ?case
  proof (cases "read_varint raw (int (pos + 36))")
    case (Inl e)
    with Suc.prems show ?thesis by (simp del: of_nat_add)
  next
    case (Inr r)
    obtain script_len varint_size where r: "r = (script_len, varint_size)"
      by (cases r)
    from Suc.prems have "walk_inputs raw n (pos + 36 + varint_size + script_len + 4) = Inr p"
      by (simp add: Inr r del: of_nat_add)
    then have "pos + 36 + varint_size + script_len + 4 \<le> p"
      by (rule Suc.IH)
    then show ?thesis by simp
  qed
qed

lemma walk_outputs_mono: "walk_outputs raw n pos = Inr p \<Longrightarrow> pos \<le> p"
proof (induction n arbitrary: pos)
  case 0
  then show ?case by simp
next
  case (Suc n)
  show ?case
  proof (cases "read_varint raw (int (pos + 8))")
    case (Inl e)
    with Suc.prems show ?thesis by (simp del: of_nat_add)
  next
    case (Inr r)
    obtain script_len varint_size where r: "r = (script_len, varint_size)"
      by (cases r)
    from Suc.prems have "walk_outputs raw n (pos + 8 + varint_size + script_len) = Inr p"
      by (simp add: Inr r del: of_nat_add)
    then have "pos + 8 + varint_size + script_len \<le> p"
      by (rule Suc.IH)
    then show ?thesis by simp
  qed
qed

lemma walk_inputs_decompose:
  assumes "walk_inputs raw n pos = Inr p" and "p \<le> length raw"
  shows "\<exists>ins. length ins = n \<and> list_all wf_txin ins \<and>
               take (p - pos) (drop pos raw) = concat (map ser_txin ins)"
  using assms
proof (induction n arbitrary: pos)
  case 0
  then show ?case by simp
next
  case (Suc n)
  show ?case
  proof (cases "read_varint raw (int (pos + 36))")
    case (Inl e)
    with Suc.prems show ?thesis by (simp del: of_nat_add)
  next
    case (Inr r)
    obtain script_len varint_size where r: "r = (script_len, varint_size)"
      by (cases r)
    define pos' where "pos' = pos + 36 + varint_size + script_len + 4"
    from Suc.prems(1) have w: "walk_inputs raw n pos' = Inr p"
      by (simp add: Inr r pos'_def del: of_nat_add)
    have mono: "pos' \<le> p" using w by (rule walk_inputs_mono)
    with Suc.prems(2) have bound: "pos' \<le> length raw" by simp
    from Suc.IH [OF w Suc.prems(2)] obtain ins where ins: "length ins = n"
      "list_all wf_txin ins" "take (p - pos') (drop pos' raw) = concat (map ser_txin ins)"
      by blast
    define p1 where "p1 = pos + 36"
    define p2 where "p2 = p1 + varint_size"
    define p3 where "p3 = p2 + script_len"
    define i where "i = \<lparr>prev_output = take 36 (drop pos raw),
      in_script_len = take varint_size (drop p1 raw),
      in_script = take script_len (drop p2 raw),
      in_sequence = take 4 (drop p3 raw)\<rparr>"
    have pos': "pos' = p3 + 4"
      by (simp add: pos'_def p1_def p2_def p3_def)
    have enc: "is_varint (take varint_size (drop p1 raw)) script_len"
      unfolding p1_def using Inr r bound
      by (intro read_varint_is_varint) (simp_all add: pos'_def)
    have wf: "wf_txin i"
      using bound enc by (simp add: wf_txin_def i_def pos' p1_def p2_def p3_def)
    have s3: "take script_len (drop p2 raw) @ take 4 (drop p3 raw) =
              take (script_len + 4) (drop p2 raw)"
      unfolding p3_def by (rule slice_append)
    have s2: "take varint_size (drop p1 raw) @ take (script_len + 4) (drop p2 raw) =
              take (varint_size + (script_len + 4)) (drop p1 raw)"
      unfolding p2_def by (rule slice_append)
    have s1: "take 36 (drop pos raw) @ take (varint_size + (script_len + 4)) (drop p1 raw) =
              take (36 + (varint_size + (script_len + 4))) (drop pos raw)"
      unfolding p1_def by (rule slice_append)
    have ser: "ser_txin i = take (pos' - pos) (drop pos raw)"
    proof -
      have "ser_txin i = take (36 + (varint_size + (script_len + 4))) (drop pos raw)"
        by (simp only: ser_txin_def i_def txin.simps s3 s2 s1)
      then show ?thesis by (simp add: pos'_def)
    qed
    have split: "p - pos = (pos' - pos) + (p - pos')"
      using mono by (simp add: pos'_def)
    have pd: "pos + (pos' - pos) = pos'"
      by (simp add: pos'_def)
    have "take (pos' - pos) (drop pos raw) @ take (p - pos') (drop (pos + (pos' - pos)) raw) =
          take ((pos' - pos) + (p - pos')) (drop pos raw)"
      by (rule slice_append)
    then have "take (p - pos) (drop pos raw) =
          take (pos' - pos) (drop pos raw) @ take (p - pos') (drop pos' raw)"
      by (simp only: pd split [symmetric])
    then have "take (p - pos) (drop pos raw) = concat (map ser_txin (i # ins))"
      by (simp add: ser ins(3))
    moreover have "length (i # ins) = Suc n" "list_all wf_txin (i # ins)"
      using ins wf by simp_all
    ultimately show ?thesis by blast
  qed
qed

lemma walk_outputs_decompose:
  assumes "walk_outputs raw n pos = Inr p" and "p \<le> length raw"
  shows "\<exists>outs. length outs = n \<and> list_all wf_txout outs \<and>
               take (p - pos) (drop pos raw) = concat (map ser_txout outs)"
  using assms
proof (induction n arbitrary: pos)
  case 0
  then show ?case by simp
next
  case (Suc n)
  show ?case
  proof (cases "read_varint raw (int (pos + 8))")
    case (Inl e)
    with Suc.prems show ?thesis by (simp del: of_nat_add)
  next
    case (Inr r)
    obtain script_len varint_size where r: "r = (script_len, varint_size)"
      by (cases r)
    define pos' where "pos' = pos + 8 + varint_size + script_len"
    from Suc.prems(1) have w: "walk_outputs raw n pos' = Inr p"
      by (simp add: Inr r pos'_def del: of_nat_add)
    have mono: "pos' \<le> p" using w by (rule walk_outputs_mono)
    with Suc.prems(2) have bound: "pos' \<le> length raw" by simp
    from Suc.IH [OF w Suc.prems(2)] obtain outs where outs: "length outs = n"
      "list_all wf_txout outs" "take (p - pos') (drop pos' raw) = concat (map ser_txout outs)"
      by blast
    define p1 where "p1 = pos + 8"
    define p2 where "p2 = p1 + varint_size"
    define out where "out = \<lparr>out_value = take 8 (drop pos raw),
      out_script_len = take varint_size (drop p1 raw),
      out_script = take script_len (drop p2 raw)\<rparr>"
    have pos': "pos' = p2 + script_len"
      by (simp add: pos'_def p1_def p2_def)
    have enc: "is_varint (take varint_size (drop p1 raw)) script_len"
      unfolding p1_def using Inr r bound
      by (intro read_varint_is_varint) (simp_all add: pos'_def)
    have wf: "wf_txout out"
      using bound enc by (simp add: wf_txout_def out_def pos' p1_def p2_def)
    have s2: "take varint_size (drop p1 raw) @ take script_len (drop p2 raw) =
              take (varint_size + script_len) (drop p1 raw)"
      unfolding p2_def by (rule slice_append)
    have s1: "take 8 (drop pos raw) @ take (varint_size + script_len) (drop p1 raw) =
              take (8 + (varint_size + script_len)) (drop pos raw)"
      unfolding p1_def by (rule slice_append)
    have ser: "ser_txout out = take (pos' - pos) (drop pos raw)"
    proof -
      have "ser_txout out = take (8 + (varint_size + script_len)) (drop pos raw)"
        by (simp only: ser_txout_def out_def txout.simps s2 s1)
      then show ?thesis by (simp add: pos'_def)
    qed
    have split: "p - pos = (pos' - pos) + (p - pos')"
      using mono by (simp add: pos'_def)
    have pd: "pos + (pos' - pos) = pos'"
      by (simp add: pos'_def)
    have "take (pos' - pos) (drop pos raw) @ take (p - pos') (drop (pos + (pos' - pos)) raw) =
          take ((pos' - pos) + (p - pos')) (drop pos raw)"
      by (rule slice_append)
    then have "take (p - pos) (drop pos raw) =
          take (pos' - pos) (drop pos raw) @ take (p - pos') (drop pos' raw)"
      by (simp only: pd split [symmetric])
    then have "take (p - pos) (drop pos raw) = concat (map ser_txout (out # outs))"
      by (simp add: ser outs(3))
    moreover have "length (out # outs) = Suc n" "list_all wf_txout (out # outs)"
      using outs wf by simp_all
    ultimately show ?thesis by blast
  qed
qed

lemma parsed_is_serialized:
  assumes m: "has_marker raw"
    and e: "section_ends raw = Inr (inputs_end, outputs_end)"
    and b: "outputs_end + 4 \<le> length raw"
  shows "\<exists>t. wf_tx t \<and> raw = serialize_segwit t \<and>
             inputs_end = 6 + length (input_section t) \<and>
             outputs_end = inputs_end + length (output_section t)"
proof -
  from e obtain n vs k vs' where r1: "read_varint raw 6 = Inr (n, vs)"
    and w1: "walk_inputs raw n (6 + vs) = Inr inputs_end"
    and r2: "read_varint raw (int inputs_end) = Inr (k, vs')"
    and w2: "walk_outputs raw k (inputs_end + vs') = Inr outputs_end"
    by (auto simp: section_ends_def split: sum.splits prod.splits)
  have r1': "read_varint raw (int 6) = Inr (n, vs)"
    using r1 by simp
  have m1: "6 + vs \<le> inputs_end" using w1 by (rule walk_inputs_mono)
  have m2: "inputs_end + vs' \<le> outputs_end" using w2 by (rule walk_outputs_mono)
  have ie: "inputs_end \<le> length raw" and oe: "outputs_end \<le> length raw"
    using m2 b by simp_all
  obtain ins where ins: "length ins = n" "list_all wf_txin ins"
    "take (inputs_end - (6 + vs)) (drop (6 + vs) raw) = concat (map ser_txin ins)"
    using walk_inputs_decompose [OF w1 ie] by blast
  obtain outs where outs: "length outs = k" "list_all wf_txout outs"
    "take (outputs_end - (inputs_end + vs')) (drop (inputs_end + vs') raw) =
       concat (map ser_txout outs)"
    using walk_outputs_decompose [OF w2 oe] by blast
  define ic where "ic = take vs (drop 6 raw)"
  define oc where "oc = take vs' (drop inputs_end raw)"
  have ic: "is_varint ic n"
    unfolding ic_def using r1' m1 ie by (intro read_varint_is_varint) simp_all
  have oc: "is_varint oc k"
    unfolding oc_def using r2 m2 oe by (intro read_varint_is_varint) simp_all
  define t where "t = \<lparr>tx_version = take 4 raw, tx_input_count = ic, tx_inputs = ins,
    tx_output_count = oc, tx_outputs = outs,
    tx_witness = take (length raw - 4 - outputs_end) (drop outputs_end raw),
    tx_locktime = drop (length raw - 4) raw\<rparr>"
  have isec: "input_section t = take (inputs_end - 6) (drop 6 raw)"
    using slice_split [of 6 "6 + vs" inputs_end raw] m1
    by (simp add: input_section_def t_def ic_def ins(3))
  have osec: "output_section t = take (outputs_end - inputs_end) (drop inputs_end raw)"
    using slice_split [of inputs_end "inputs_end + vs'" outputs_end raw] m2
    by (simp add: output_section_def t_def oc_def outs(3))
  have wf: "wf_tx t"
    using m b ic oc ins outs by (simp add: wf_tx_def t_def has_marker_def)
  have mk: "[0x00, 0x01] = take (6 - 4) (drop 4 raw)"
    using m by (simp add: has_marker_def numeral_2_eq_2 take_Suc_drop)
  have "serialize_segwit t =
        take 4 raw @ take (6 - 4) (drop 4 raw) @ take (inputs_end - 6) (drop 6 raw) @
        take (outputs_end - inputs_end) (drop inputs_end raw) @
        take (length raw - 4 - outputs_end) (drop outputs_end raw) @
        drop (length raw - 4) raw"
    unfolding serialize_segwit_def isec osec mk by (simp add: t_def)
  also have "\<dots> = take 4 raw @ drop 4 raw"
    using m1 m2 b
    by (simp only: slice_then_rest [of outputs_end "length raw - 4"]
        slice_then_rest [of inputs_end outputs_end] slice_then_rest [of 6 inputs_end]
        slice_then_rest [of 4 6])
  finally have raw: "raw = serialize_segwit t" by simp
  have "inputs_end = 6 + length (input_section t)"
    using m1 ie by (simp add: isec)
  moreover have "outputs_end = inputs_end + length (output_section t)"
    using m2 oe by (simp add: osec)
  ultimately show ?thesis using wf raw by blast
qed

lemma valid_tagged_iff:
  "(\<exists>t. wf_tx t \<and> raw = serialize_segwit t) \<longleftrightarrow>
   has_marker raw \<and>
   (\<exists>inputs_end outputs_end.
      section_ends raw = Inr (inputs_end, outputs_end) \<and> outputs_end + 4 \<le> length raw)"
proof
  assume "\<exists>t. wf_tx t \<and> raw = serialize_segwit t"
  then obtain t where t: "wf_tx t" "raw = serialize_segwit t" by blast
  have "has_marker raw"
    using wf_tx_parts(1) [OF t(1)]
    by (simp add: t(2) has_marker_def serialize_segwit_def nth_append)
  moreover have "section_ends raw =
    Inr (6 + length (input_section t), 6 + length (input_section t) + length (output_section t))"
    unfolding t(2) by (rule section_ends_serialized [OF t(1)])
  moreover have "6 + length (input_section t) + length (output_section t) + 4 \<le> length raw"
    unfolding t(2) by (simp add: length_serialize_segwit [OF t(1)])
  ultimately show "has_marker raw \<and>
   (\<exists>inputs_end outputs_end.
      section_ends raw = Inr (inputs_end, outputs_end) \<and> outputs_end + 4 \<le> length raw)"
    by blast
next
  assume "has_marker raw \<and>
   (\<exists>inputs_end outputs_end.
      section_ends raw = Inr (inputs_end, outputs_end) \<and> outputs_end + 4 \<le> length raw)"
  then show "\<exists>t. wf_tx t \<and> raw = serialize_segwit t"
    using parsed_is_serialized by blast
qed

section \<open>The loops\<close>

lemma walk_inputs_iterations_le: "walk_inputs_iterations raw n pos \<le> n"
proof (induction n arbitrary: pos)
  case 0
  show ?case by simp
next
  case (Suc n)
  show ?case
  proof (cases "read_varint raw (int (pos + 36))")
    case (Inl e)
    then show ?thesis by (simp del: of_nat_add)
  next
    case (Inr r)
    obtain script_len varint_size where r: "r = (script_len, varint_size)"
      by (cases r)
    have "walk_inputs_iterations raw n (pos + 36 + varint_size + script_len + 4) \<le> n"
      by (rule Suc.IH)
    then show ?thesis by (simp add: Inr r del: of_nat_add)
  qed
qed

lemma walk_inputs_iterations_done:
  "walk_inputs raw n pos = Inr p \<Longrightarrow> walk_inputs_iterations raw n pos = n"
proof (induction n arbitrary: pos)
  case 0
  show ?case by simp
next
  case (Suc n)
  show ?case
  proof (cases "read_varint raw (int (pos + 36))")
    case (Inl e)
    with Suc.prems show ?thesis by (simp del: of_nat_add)
  next
    case (Inr r)
    obtain script_len varint_size where r: "r = (script_len, varint_size)"
      by (cases r)
    from Suc.prems have "walk_inputs raw n (pos + 36 + varint_size + script_len + 4) = Inr p"
      by (simp add: Inr r del: of_nat_add)
    then have "walk_inputs_iterations raw n (pos + 36 + varint_size + script_len + 4) = n"
      by (rule Suc.IH)
    then show ?thesis by (simp add: Inr r del: of_nat_add)
  qed
qed

lemma walk_inputs_iterations_linear:
  "walk_inputs_iterations raw n pos \<le> Suc (length raw - pos)"
proof (induction n arbitrary: pos)
  case 0
  show ?case by simp
next
  case (Suc n)
  show ?case
  proof (cases "read_varint raw (int (pos + 36))")
    case (Inl e)
    then show ?thesis by (simp del: of_nat_add)
  next
    case (Inr r)
    obtain script_len varint_size where r: "r = (script_len, varint_size)"
      by (cases r)
    from Inr r have b: "pos + 36 < length raw"
      using read_varint_Inr(1) by blast
    have "walk_inputs_iterations raw n (pos + 36 + varint_size + script_len + 4)
          \<le> Suc (length raw - (pos + 36 + varint_size + script_len + 4))"
      by (rule Suc.IH)
    with b show ?thesis by (simp add: Inr r del: of_nat_add)
  qed
qed

lemma walk_outputs_iterations_le: "walk_outputs_iterations raw n pos \<le> n"
proof (induction n arbitrary: pos)
  case 0
  show ?case by simp
next
  case (Suc n)
  show ?case
  proof (cases "read_varint raw (int (pos + 8))")
    case (Inl e)
    then show ?thesis by (simp del: of_nat_add)
  next
    case (Inr r)
    obtain script_len varint_size where r: "r = (script_len, varint_size)"
      by (cases r)
    have "walk_outputs_iterations raw n (pos + 8 + varint_size + script_len) \<le> n"
      by (rule Suc.IH)
    then show ?thesis by (simp add: Inr r del: of_nat_add)
  qed
qed

lemma walk_outputs_iterations_done:
  "walk_outputs raw n pos = Inr p \<Longrightarrow> walk_outputs_iterations raw n pos = n"
proof (induction n arbitrary: pos)
  case 0
  show ?case by simp
next
  case (Suc n)
  show ?case
  proof (cases "read_varint raw (int (pos + 8))")
    case (Inl e)
    with Suc.prems show ?thesis by (simp del: of_nat_add)
  next
    case (Inr r)
    obtain script_len varint_size where r: "r = (script_len, varint_size)"
      by (cases r)
    from Suc.prems have "walk_outputs raw n (pos + 8 + varint_size + script_len) = Inr p"
      by (simp add: Inr r del: of_nat_add)
    then have "walk_outputs_iterations raw n (pos + 8 + varint_size + script_len) = n"
      by (rule Suc.IH)
    then show ?thesis by (simp add: Inr r del: of_nat_add)
  qed
qed

lemma walk_outputs_iterations_linear:
  "walk_outputs_iterations raw n pos \<le> Suc (length raw - pos)"
proof (induction n arbitrary: pos)
  case 0
  show ?case by simp
next
  case (Suc n)
  show ?case
  proof (cases "read_varint raw (int (pos + 8))")
    case (Inl e)
    then show ?thesis by (simp del: of_nat_add)
  next
    case (Inr r)
    obtain script_len varint_size where r: "r = (script_len, varint_size)"
      by (cases r)
    from Inr r have b: "pos + 8 < length raw"
      using read_varint_Inr(1) by blast
    have "walk_outputs_iterations raw n (pos + 8 + varint_size + script_len)
          \<le> Suc (length raw - (pos + 8 + varint_size + script_len))"
      by (rule Suc.IH)
    with b show ?thesis by (simp add: Inr r del: of_nat_add)
  qed
qed

text \<open>
  The loops with fuel against the recursive walks: a loop returns exactly when the
  fuel covers its passes, and then it returns what the walk returns.
\<close>

lemma walk_inputs_advance: "walk_inputs raw n pos = Inr p \<Longrightarrow> pos + n \<le> p"
proof (induction n arbitrary: pos)
  case 0
  then show ?case by simp
next
  case (Suc n)
  show ?case
  proof (cases "read_varint raw (int (pos + 36))")
    case (Inl e)
    with Suc.prems show ?thesis by (simp del: of_nat_add)
  next
    case (Inr r)
    obtain script_len varint_size where r: "r = (script_len, varint_size)"
      by (cases r)
    from Suc.prems have "walk_inputs raw n (pos + 36 + varint_size + script_len + 4) = Inr p"
      by (simp add: Inr r del: of_nat_add)
    then have "pos + 36 + varint_size + script_len + 4 + n \<le> p"
      by (rule Suc.IH)
    then show ?thesis by simp
  qed
qed

lemma walk_inputs_fuel_eq:
  assumes "i \<le> n"
  shows "walk_inputs_fuel fuel raw i n pos =
         (if walk_inputs_iterations raw (n - i) pos \<le> fuel
          then Some (fuel - walk_inputs_iterations raw (n - i) pos, walk_inputs raw (n - i) pos)
          else None)"
  using assms
proof (induction fuel arbitrary: i pos)
  case 0
  show ?case
  proof (cases "i < n")
    case True
    then obtain m where m: "n - i = Suc m"
      by (cases "n - i") simp_all
    with True show ?thesis
      by (simp del: of_nat_add split: sum.splits prod.splits)
  next
    case False
    with 0 show ?thesis by simp
  qed
next
  case (Suc fuel)
  show ?case
  proof (cases "i < n")
    case False
    with Suc.prems show ?thesis by simp
  next
    case True
    then have m: "n - i = Suc (n - Suc i)" and le: "Suc i \<le> n"
      by simp_all
    show ?thesis
    proof (cases "read_varint raw (int (pos + 36))")
      case (Inl e)
      with True show ?thesis by (simp add: m del: of_nat_add)
    next
      case (Inr r)
      obtain script_len varint_size where r: "r = (script_len, varint_size)"
        by (cases r)
      show ?thesis
        using True Suc.IH [OF le, of "pos + 36 + varint_size + script_len + 4"]
        by (simp add: m Inr r del: of_nat_add)
    qed
  qed
qed

lemma walk_outputs_fuel_eq:
  assumes "i \<le> n"
  shows "walk_outputs_fuel fuel raw i n pos =
         (if walk_outputs_iterations raw (n - i) pos \<le> fuel
          then Some (fuel - walk_outputs_iterations raw (n - i) pos,
                     walk_outputs raw (n - i) pos)
          else None)"
  using assms
proof (induction fuel arbitrary: i pos)
  case 0
  show ?case
  proof (cases "i < n")
    case True
    then obtain m where m: "n - i = Suc m"
      by (cases "n - i") simp_all
    with True show ?thesis
      by (simp del: of_nat_add split: sum.splits prod.splits)
  next
    case False
    with 0 show ?thesis by simp
  qed
next
  case (Suc fuel)
  show ?case
  proof (cases "i < n")
    case False
    with Suc.prems show ?thesis by simp
  next
    case True
    then have m: "n - i = Suc (n - Suc i)" and le: "Suc i \<le> n"
      by simp_all
    show ?thesis
    proof (cases "read_varint raw (int (pos + 8))")
      case (Inl e)
      with True show ?thesis by (simp add: m del: of_nat_add)
    next
      case (Inr r)
      obtain script_len varint_size where r: "r = (script_len, varint_size)"
        by (cases r)
      show ?thesis
        using True Suc.IH [OF le, of "pos + 8 + varint_size + script_len"]
        by (simp add: m Inr r del: of_nat_add)
    qed
  qed
qed

lemma strip_fuel_marker:
  assumes "has_marker raw"
  shows "strip_witness_data_fuel fuel raw =
     (case read_varint raw 6 of
        Inl e \<Rightarrow> Some (Inl e)
      | Inr (input_count, varint_size) \<Rightarrow>
          (case walk_inputs_fuel fuel raw 0 input_count (6 + varint_size) of
             None \<Rightarrow> None
           | Some (fuel', r) \<Rightarrow>
               (case r of
                  Inl e \<Rightarrow> Some (Inl e)
                | Inr inputs_end \<Rightarrow>
                    (case read_varint raw (int inputs_end) of
                       Inl e \<Rightarrow> Some (Inl e)
                     | Inr (output_count, varint_size) \<Rightarrow>
                         (case walk_outputs_fuel fuel' raw 0 output_count
                                 (inputs_end + varint_size) of
                            None \<Rightarrow> None
                          | Some (fuel'', r') \<Rightarrow>
                              (case r' of
                                 Inl e \<Rightarrow> Some (Inl e)
                               | Inr outputs_end \<Rightarrow>
                                   Some (Inr (take 4 raw @
                                     take (inputs_end - 6) (drop 6 raw) @
                                     take (outputs_end - inputs_end) (drop inputs_end raw) @
                                     drop (length raw - 4) raw))))))))"
proof -
  from assms have g: "\<not> (length raw < 6 \<or> py_slice raw 4 6 \<noteq> [0x00, 0x01])"
    by (simp add: has_marker_guard)
  show ?thesis
    unfolding strip_witness_data_fuel_def
    by (simp only: g if_False)
       (simp add: Let_def py_slice_version py_slice_inputs py_slice_nat py_slice_from_last4
          split: sum.splits prod.splits option.splits)
qed

lemma strip_iterations_marker:
  assumes "has_marker raw"
  shows "strip_iterations raw =
     (case read_varint raw 6 of
        Inl e \<Rightarrow> 0
      | Inr (input_count, varint_size) \<Rightarrow>
          walk_inputs_iterations raw input_count (6 + varint_size) +
          (case walk_inputs raw input_count (6 + varint_size) of
             Inl e \<Rightarrow> 0
           | Inr pos \<Rightarrow>
               (case read_varint raw (int pos) of
                  Inl e \<Rightarrow> 0
                | Inr (output_count, varint_size) \<Rightarrow>
                    walk_outputs_iterations raw output_count (pos + varint_size))))"
proof -
  from assms have g: "\<not> (length raw < 6 \<or> py_slice raw 4 6 \<noteq> [0x00, 0x01])"
    by (simp add: has_marker_guard)
  show ?thesis
    unfolding strip_iterations_def by (simp only: g if_False)
qed

lemma strip_iterations_no_marker: "\<not> has_marker raw \<Longrightarrow> strip_iterations raw = 0"
  by (simp add: strip_iterations_def has_marker_guard)

lemma strip_fuel_no_marker:
  "\<not> has_marker raw \<Longrightarrow> strip_witness_data_fuel fuel raw = Some (Inr raw)"
  by (simp add: strip_witness_data_fuel_def has_marker_guard)

lemma strip_fuel_eq:
  "strip_witness_data_fuel fuel raw =
     (if strip_iterations raw \<le> fuel then Some (strip_witness_data raw) else None)"
proof (cases "has_marker raw")
  case False
  then show ?thesis
    by (simp add: strip_fuel_no_marker strip_iterations_no_marker strip_no_marker)
next
  case True
  show ?thesis
  proof (cases "read_varint raw 6")
    case (Inl e)
    then show ?thesis
      by (simp add: strip_fuel_marker [OF True] strip_iterations_marker [OF True]
          strip_marker [OF True] section_ends_def)
  next
    case r1: (Inr a)
    obtain input_count vs where a: "a = (input_count, vs)" by (cases a)
    define it_in where "it_in = walk_inputs_iterations raw input_count (6 + vs)"
    have f1: "walk_inputs_fuel fuel raw 0 input_count (6 + vs) =
        (if it_in \<le> fuel then Some (fuel - it_in, walk_inputs raw input_count (6 + vs))
         else None)"
      using walk_inputs_fuel_eq [of 0 input_count fuel raw "6 + vs"] by (simp add: it_in_def)
    show ?thesis
    proof (cases "walk_inputs raw input_count (6 + vs)")
      case (Inl e)
      then show ?thesis
        by (simp add: strip_fuel_marker [OF True] strip_iterations_marker [OF True]
            strip_marker [OF True] section_ends_def r1 a f1 it_in_def)
    next
      case w1: (Inr inputs_end)
      show ?thesis
      proof (cases "read_varint raw (int inputs_end)")
        case (Inl e)
        then show ?thesis
          by (simp add: strip_fuel_marker [OF True] strip_iterations_marker [OF True]
              strip_marker [OF True] section_ends_def r1 a f1 w1 it_in_def)
      next
        case r2: (Inr b)
        obtain output_count vs' where b: "b = (output_count, vs')" by (cases b)
        define it_out where
          "it_out = walk_outputs_iterations raw output_count (inputs_end + vs')"
        have f2: "walk_outputs_fuel (fuel - it_in) raw 0 output_count (inputs_end + vs') =
            (if it_out \<le> fuel - it_in
             then Some (fuel - it_in - it_out,
                        walk_outputs raw output_count (inputs_end + vs'))
             else None)"
          using walk_outputs_fuel_eq [of 0 output_count "fuel - it_in" raw "inputs_end + vs'"]
          by (simp add: it_out_def)
        have total: "strip_iterations raw = it_in + it_out"
          by (simp add: strip_iterations_marker [OF True] r1 a w1 r2 b it_in_def it_out_def)
        have le: "it_in + it_out \<le> fuel \<longleftrightarrow> it_in \<le> fuel \<and> it_out \<le> fuel - it_in"
          by auto
        show ?thesis
          unfolding total le
          by (cases "walk_outputs raw output_count (inputs_end + vs')")
             (simp_all add: strip_fuel_marker [OF True] strip_marker [OF True]
                section_ends_def r1 a f1 w1 r2 b f2)
      qed
    qed
  qed
qed

lemma strip_iterations_linear: "strip_iterations raw \<le> length raw"
proof (cases "has_marker raw")
  case False
  then show ?thesis by (simp add: strip_iterations_no_marker)
next
  case True
  show ?thesis
  proof (cases "read_varint raw 6")
    case (Inl e)
    then show ?thesis by (simp add: strip_iterations_marker [OF True])
  next
    case r1: (Inr a)
    obtain input_count vs where a: "a = (input_count, vs)" by (cases a)
    have "read_varint raw (int 6) = Inr (input_count, vs)"
      using r1 a by simp
    then have len: "6 < length raw" and vs: "1 \<le> vs"
      by (rule read_varint_Inr)+
    define it_in where "it_in = walk_inputs_iterations raw input_count (6 + vs)"
    have "it_in \<le> Suc (length raw - (6 + vs))"
      unfolding it_in_def by (rule walk_inputs_iterations_linear)
    with len vs have in_le: "it_in + 6 \<le> length raw" by simp
    show ?thesis
    proof (cases "walk_inputs raw input_count (6 + vs)")
      case (Inl e)
      with in_le show ?thesis
        by (simp add: strip_iterations_marker [OF True] r1 a it_in_def)
    next
      case w1: (Inr inputs_end)
      have it: "it_in = input_count"
        unfolding it_in_def using w1 by (rule walk_inputs_iterations_done)
      have adv: "6 + vs + input_count \<le> inputs_end"
        using w1 by (rule walk_inputs_advance)
      show ?thesis
      proof (cases "read_varint raw (int inputs_end)")
        case (Inl e)
        with in_le show ?thesis
          by (simp add: strip_iterations_marker [OF True] r1 a w1 it_in_def)
      next
        case r2: (Inr b)
        obtain output_count vs' where b: "b = (output_count, vs')" by (cases b)
        from r2 b have ie: "inputs_end < length raw" and vs': "1 \<le> vs'"
          using read_varint_Inr by blast+
        have "walk_outputs_iterations raw output_count (inputs_end + vs')
              \<le> Suc (length raw - (inputs_end + vs'))"
          by (rule walk_outputs_iterations_linear)
        with ie vs' adv it show ?thesis
          by (simp add: strip_iterations_marker [OF True] r1 a w1 r2 b it_in_def [symmetric])
      qed
    qed
  qed
qed

lemma strip_iterations_counts:
  assumes "has_marker raw"
    and "read_varint raw 6 = Inr (input_count, vs)"
    and "walk_inputs raw input_count (6 + vs) = Inr inputs_end"
    and "read_varint raw (int inputs_end) = Inr (output_count, vs')"
    and "walk_outputs raw output_count (inputs_end + vs') = Inr outputs_end"
  shows "strip_iterations raw = input_count + output_count"
  using assms walk_inputs_iterations_done [OF assms(3)] walk_outputs_iterations_done [OF assms(5)]
  by (simp add: strip_iterations_marker)

section \<open>The sample records\<close>

lemma wf_sample_tx: "wf_tx sample_tx"
  by (simp add: sample_tx_def wf_tx_def wf_txin_def wf_txout_def is_varint_def)

lemma serialize_sample_tx: "serialize_segwit sample_tx = sample_raw"
  by (simp add: sample_tx_def sample_raw_def serialize_segwit_def input_section_def
      output_section_def ser_txin_def ser_txout_def)

lemma legacy_sample_tx: "serialize_legacy sample_tx = sample_legacy"
  by (simp add: sample_tx_def sample_legacy_def serialize_legacy_def input_section_def
      output_section_def ser_txin_def ser_txout_def)

lemma sections_sample_tx:
  "length (input_section sample_tx) = 42" "length (output_section sample_tx) = 12"
  by (simp_all add: sample_tx_def input_section_def output_section_def ser_txin_def
      ser_txout_def)

lemma wf_empty_tx: "wf_tx empty_tx"
  by (simp add: empty_tx_def wf_tx_def is_varint_def)

lemma wf_one_output_tx: "wf_tx one_output_tx"
  by (simp add: one_output_tx_def wf_tx_def wf_txout_def is_varint_def)

section \<open>The claims\<close>

subsection \<open>C1: sequences shorter than six bytes\<close>

text \<open>
  C1 says that a sequence shorter than 6 bytes makes the rewrite fail with
  InvalidRecord.  The guard of the source, \<^verbatim>\<open>if len(raw) < 6 or raw[4:6] != ...\<close>,
  sends such a sequence down the same branch as an untagged record: it is returned
  as it is, and no exception is raised.  C1 as the code has it: for every sequence
  shorter than 6 bytes the rewrite returns the sequence itself.
\<close>

theorem strip_short_returns_input:
  "length raw < 6 \<Longrightarrow> strip_witness_data raw = Inr raw"
  by (simp add: strip_witness_data_def)

theorem strip_short_returns_input_witness:
  "length [1, 0, 0 :: byte] < 6 \<and> strip_witness_data [1, 0, 0] = Inr [1, 0, 0]"
  using strip_short_returns_input [of "[1, 0, 0]"] by simp

text \<open>Five bytes go in, the same five bytes come out, as a result and not as a failure.\<close>

theorem strip_short_counterexample:
  "length [1, 0, 0, 0, 0 :: byte] < 6 \<and> strip_witness_data [1, 0, 0, 0, 0] = Inr [1, 0, 0, 0, 0]"
  by (simp add: strip_witness_data_def)

subsection \<open>C2: when the varint reader fails\<close>

text \<open>
  C2 says that the reader fails when the offset or the payload bytes of a
  discriminant 253, 254 or 255 lie past the end.  The only operation of
  \<^verbatim>\<open>read_varint\<close> that can raise is the subscript \<^verbatim>\<open>data[pos]\<close>; the payload is taken
  with a slice, which is clamped.  C2 as the code has it, for a sequence of \<open>len\<close>
  bytes: the reader fails, with IndexError, exactly when the offset itself is outside
  the sequence (\<open>pos \<ge> len\<close> or \<open>pos < - len\<close>), and never for missing payload bytes.
  At an offset \<open>0 \<le> pos < len\<close> it returns the width 1, 3, 5 or 9 of the discriminant
  and the little-endian value of the payload bytes that are there: all 2, 4 or 8 of
  them when the payload lies inside the sequence, and the remaining ones (the value 0
  when none is left) otherwise.  At an offset \<open>- len \<le> pos < 0\<close>, which the subscript
  counts from the end, it returns as well: the discriminant is the byte at
  \<open>len + pos\<close>, the width is fixed by it, and the value is that of the slice
  \<^verbatim>\<open>data[pos+1:pos+1+k]\<close> for \<open>k\<close> = 2, 4, 8 as Python clamps it.  That slice is the \<open>k\<close>
  bytes after the discriminant when \<open>pos + 1 + k < 0\<close>; it is the first \<open>k\<close> bytes of
  the whole sequence when \<open>pos = - 1\<close>; otherwise it holds the bytes from index
  \<open>len + pos + 1\<close> up to, not including, index \<open>pos + 1 + k\<close>, which are none unless
  the sequence is shorter than \<open>k\<close>.
\<close>

theorem read_varint_fails_iff_offset:
  "(read_varint data pos = Inl IndexError \<longleftrightarrow>
      pos < - int (length data) \<or> int (length data) \<le> pos) \<and>
   (0 \<le> pos \<and> pos < int (length data) \<longrightarrow>
      read_varint data pos =
        (let d = data ! nat pos
         in if d < 0xfd then Inr (unat d, 1)
            else if d = 0xfd then Inr (from_bytes_little (take 2 (drop (nat pos + 1) data)), 3)
            else if d = 0xfe then Inr (from_bytes_little (take 4 (drop (nat pos + 1) data)), 5)
            else Inr (from_bytes_little (take 8 (drop (nat pos + 1) data)), 9))) \<and>
   (- int (length data) \<le> pos \<and> pos < 0 \<longrightarrow>
      read_varint data pos =
        (let q = nat (int (length data) + pos);
             d = data ! q;
             payload = (\<lambda>k. if pos + 1 + int k < 0 then take k (drop (q + 1) data)
                            else if pos = - 1 then take k data
                            else take (nat (pos + 1 + int k) - (q + 1)) (drop (q + 1) data))
         in if d < 0xfd then Inr (unat d, 1)
            else if d = 0xfd then Inr (from_bytes_little (payload 2), 3)
            else if d = 0xfe then Inr (from_bytes_little (payload 4), 5)
            else Inr (from_bytes_little (payload 8), 9)))"
proof (intro conjI impI)
  show "read_varint data pos = Inl IndexError \<longleftrightarrow>
      pos < - int (length data) \<or> int (length data) \<le> pos"
    by (auto simp: read_varint_def py_index_def Let_def split: sum.splits)
next
  assume "0 \<le> pos \<and> pos < int (length data)"
  then have p: "pos = int (nat pos)" "nat pos < length data"
    by linarith+
  show "read_varint data pos =
        (let d = data ! nat pos
         in if d < 0xfd then Inr (unat d, 1)
            else if d = 0xfd then Inr (from_bytes_little (take 2 (drop (nat pos + 1) data)), 3)
            else if d = 0xfe then Inr (from_bytes_little (take 4 (drop (nat pos + 1) data)), 5)
            else Inr (from_bytes_little (take 8 (drop (nat pos + 1) data)), 9))"
    using p(2) by (subst p(1)) (simp add: read_varint_nat Let_def del: int_nat_eq)
next
  assume neg: "- int (length data) \<le> pos \<and> pos < 0"
  then have lo: "- int (length data) \<le> pos" and hi: "pos < 0"
    by simp_all
  have s2: "py_slice data (pos + 1) (pos + 3) =
      (if pos + 1 + int 2 < 0 then take 2 (drop (nat (int (length data) + pos) + 1) data)
       else if pos = - 1 then take 2 data
       else take (nat (pos + 1 + int 2) - (nat (int (length data) + pos) + 1))
              (drop (nat (int (length data) + pos) + 1) data))"
    using py_slice_neg [OF lo hi, of 2] by (simp add: add.commute add.left_commute)
  have s4: "py_slice data (pos + 1) (pos + 5) =
      (if pos + 1 + int 4 < 0 then take 4 (drop (nat (int (length data) + pos) + 1) data)
       else if pos = - 1 then take 4 data
       else take (nat (pos + 1 + int 4) - (nat (int (length data) + pos) + 1))
              (drop (nat (int (length data) + pos) + 1) data))"
    using py_slice_neg [OF lo hi, of 4] by (simp add: add.commute add.left_commute)
  have s8: "py_slice data (pos + 1) (pos + 9) =
      (if pos + 1 + int 8 < 0 then take 8 (drop (nat (int (length data) + pos) + 1) data)
       else if pos = - 1 then take 8 data
       else take (nat (pos + 1 + int 8) - (nat (int (length data) + pos) + 1))
              (drop (nat (int (length data) + pos) + 1) data))"
    using py_slice_neg [OF lo hi, of 8] by (simp add: add.commute add.left_commute)
  show "read_varint data pos =
        (let q = nat (int (length data) + pos);
             d = data ! q;
             payload = (\<lambda>k. if pos + 1 + int k < 0 then take k (drop (q + 1) data)
                            else if pos = - 1 then take k data
                            else take (nat (pos + 1 + int k) - (q + 1)) (drop (q + 1) data))
         in if d < 0xfd then Inr (unat d, 1)
            else if d = 0xfd then Inr (from_bytes_little (payload 2), 3)
            else if d = 0xfe then Inr (from_bytes_little (payload 4), 5)
            else Inr (from_bytes_little (payload 8), 9))"
    unfolding read_varint_def py_index_neg [OF lo hi] s2 s4 s8 Let_def
    by (simp only: sum.case)
qed

text \<open>Offsets inside and outside a sequence of two bytes, and three negative offsets
  at a discriminant 253: \<open>fd 07\<close> at \<open>- 2\<close> decodes an empty slice, \<open>01 02 fd\<close> at \<open>- 1\<close>
  decodes the first two bytes of the sequence, and \<open>fd 34 12 00\<close> at \<open>- 4\<close> decodes its
  payload.\<close>

theorem read_varint_fails_iff_offset_witness:
  "0 \<le> (0::int) \<and> 0 < int (length [0xfd, 0x34 :: byte]) \<and>
   read_varint [0xfd, 0x34] 0 = Inr (52, 3) \<and>
   read_varint [0xfd, 0x34] 2 = Inl IndexError \<and>
   read_varint [0xfd, 0x34] (- 3) = Inl IndexError \<and>
   read_varint [0xfd, 0x34] (- 1) = Inr (52, 1) \<and>
   read_varint [0xfd, 0x07] (- 2) = Inr (0, 3) \<and>
   read_varint [0x01, 0x02, 0xfd] (- 1) = Inr (513, 3) \<and>
   read_varint [0xfd, 0x34, 0x12, 0x00] (- 4) = Inr (4660, 3)"
  using read_varint_fails_iff_offset [of "[0xfd, 0x34]" 0]
    read_varint_fails_iff_offset [of "[0xfd, 0x34]" 2]
    read_varint_fails_iff_offset [of "[0xfd, 0x34]" "- 3"]
    read_varint_fails_iff_offset [of "[0xfd, 0x34]" "- 1"]
    read_varint_fails_iff_offset [of "[0xfd, 0x07]" "- 2"]
    read_varint_fails_iff_offset [of "[0x01, 0x02, 0xfd]" "- 1"]
    read_varint_fails_iff_offset [of "[0xfd, 0x34, 0x12, 0x00]" "- 4"]
  by (simp add: Let_def)

text \<open>A lone discriminant 253 at offset 0: both payload bytes are missing, and the
  reader returns the value 0 and the width 3.\<close>

theorem read_varint_short_payload_counterexample:
  "length [0xfd :: byte] < 0 + 3 \<and> read_varint [0xfd] 0 = Inr (0, 3)"
  by (simp add: read_varint_def py_index_def py_slice_def py_bound_def)

subsection \<open>C3: a record cut by one byte\<close>

text \<open>
  C3 says that a valid tagged record without its last byte makes the rewrite fail
  with OutOfBounds.  The two walks of a valid record end before the witness data and
  the four locktime bytes, so every \<^verbatim>\<open>data[pos]\<close> of the walks is still inside the
  shortened sequence, and \<^verbatim>\<open>raw[-4:]\<close> is a slice.  C3 as the code has it: for every
  valid tagged record, the rewrite of the record without its last byte returns a
  result, namely the version, the input section, the output section, and as trailer
  the last four bytes of the shortened sequence (the byte before the locktime and the
  first three locktime bytes).
\<close>

theorem strip_truncated_still_returns:
  assumes "wf_tx t"
  shows "strip_witness_data (butlast (serialize_segwit t)) =
         Inr (tx_version t @ input_section t @ output_section t @
              [last (output_section t @ tx_witness t)] @ butlast (tx_locktime t))"
proof -
  note parts = wf_tx_parts [OF assms]
  define a where
    "a = (tx_version t @ [0x00, 0x01] @ input_section t) @ (output_section t @ tx_witness t)"
  have ne: "tx_locktime t \<noteq> []"
    using parts(6) by auto
  have one: "output_section t @ tx_witness t \<noteq> []"
    using parts(4) by (simp add: output_section_def is_varint_def)
  have raw: "serialize_segwit t = a @ tx_locktime t"
    by (simp add: serialize_segwit_def a_def)
  have bl: "butlast (serialize_segwit t) = a @ butlast (tx_locktime t)"
    unfolding raw using ne by (simp add: butlast_append)
  have len: "length (serialize_segwit t) - 5 = length a - 1"
    unfolding raw using parts(6) by simp
  have a_ne: "a \<noteq> []"
    by (simp add: a_def)
  have la: "last a = last (output_section t @ tx_witness t)"
    unfolding a_def using one by (rule last_appendR)
  have "drop (length (serialize_segwit t) - 5) (butlast (serialize_segwit t)) =
        [last (output_section t @ tx_witness t)] @ butlast (tx_locktime t)"
    unfolding len bl by (subst drop_last_append [OF a_ne]) (simp add: la)
  then show ?thesis
    using strip_serialized_truncated [OF assms] by simp
qed

theorem strip_truncated_still_returns_witness:
  "wf_tx sample_tx \<and> serialize_segwit sample_tx = sample_raw \<and>
   strip_witness_data (butlast sample_raw) =
     Inr (take 58 sample_legacy @ [0x51, 0x11, 0x22, 0x33])"
  using strip_truncated_still_returns [OF wf_sample_tx]
  by (simp add: wf_sample_tx serialize_sample_tx)
     (simp add: sample_tx_def sample_legacy_def input_section_def output_section_def
      ser_txin_def ser_txout_def)

text \<open>The smallest tagged record, 12 bytes; without its last byte the rewrite returns
  10 bytes whose trailer is \<open>00 11 22 33\<close>.\<close>

theorem strip_truncated_counterexample:
  "wf_tx empty_tx \<and>
   serialize_segwit empty_tx =
     [0x01, 0x00, 0x00, 0x00, 0x00, 0x01, 0x00, 0x00, 0x11, 0x22, 0x33, 0x44] \<and>
   strip_witness_data
     (butlast [0x01, 0x00, 0x00, 0x00, 0x00, 0x01, 0x00, 0x00, 0x11, 0x22, 0x33, 0x44]) =
     Inr [0x01, 0x00, 0x00, 0x00, 0x00, 0x00, 0x00, 0x11, 0x22, 0x33]"
proof (intro conjI)
  show "wf_tx empty_tx" by (rule wf_empty_tx)
  show "serialize_segwit empty_tx =
     [0x01, 0x00, 0x00, 0x00, 0x00, 0x01, 0x00, 0x00, 0x11, 0x22, 0x33, 0x44]"
    by (simp add: empty_tx_def serialize_segwit_def input_section_def output_section_def)
  show "strip_witness_data
     (butlast [0x01, 0x00, 0x00, 0x00, 0x00, 0x01, 0x00, 0x00, 0x11, 0x22, 0x33, 0x44]) =
     Inr [0x01, 0x00, 0x00, 0x00, 0x00, 0x00, 0x00, 0x11, 0x22, 0x33]"
    by (simp add: strip_witness_data_def read_varint_def py_index_def py_slice_def
        py_slice_from_def py_bound_def Let_def)
qed

subsection \<open>C4: rewriting twice\<close>

text \<open>
  C4 says that rewriting the rewritten record changes nothing, for every valid tagged
  record, because the second call finds no marker.  Bytes 4 and 5 of the rewritten
  record are the first bytes of the input section; when the record has no inputs and
  one output they are \<open>00 01\<close>, the marker, and the second call walks again.  C4 as the
  code has it: for every valid tagged record, except those whose input count is the
  byte \<open>00\<close> and whose output count is the byte \<open>01\<close>, the rewritten record carries no
  marker and rewriting it returns it unchanged.
\<close>

theorem strip_idempotent_unless_marker_reappears:
  assumes "wf_tx t"
    and "\<not> (tx_input_count t = [0x00] \<and> tx_output_count t = [0x01])"
  shows "strip_witness_data (serialize_segwit t) = Inr (serialize_legacy t) \<and>
         strip_witness_data (serialize_legacy t) = Inr (serialize_legacy t)"
  using strip_serialized [OF assms(1)] strip_no_marker [OF legacy_no_marker [OF assms]]
  by simp

theorem strip_idempotent_unless_marker_reappears_witness:
  "wf_tx sample_tx \<and>
   \<not> (tx_input_count sample_tx = [0x00] \<and> tx_output_count sample_tx = [0x01]) \<and>
   strip_witness_data sample_raw = Inr sample_legacy \<and>
   strip_witness_data sample_legacy = Inr sample_legacy"
  using strip_idempotent_unless_marker_reappears [OF wf_sample_tx]
  by (simp add: wf_sample_tx serialize_sample_tx legacy_sample_tx) (simp add: sample_tx_def)

text \<open>No inputs, one output: the first rewrite returns 19 bytes with \<open>00 01\<close> at offsets
  4 and 5, and the second rewrite returns 10 bytes.\<close>

theorem strip_idempotent_counterexample:
  "wf_tx one_output_tx \<and>
   serialize_segwit one_output_tx =
     [0x01, 0x00, 0x00, 0x00, 0x00, 0x01, 0x00,
      0x01, 0x00, 0x00, 0x00, 0x00, 0x00, 0x00, 0x00, 0x00, 0x00,
      0x00, 0x00, 0x00, 0x00] \<and>
   strip_witness_data
     [0x01, 0x00, 0x00, 0x00, 0x00, 0x01, 0x00,
      0x01, 0x00, 0x00, 0x00, 0x00, 0x00, 0x00, 0x00, 0x00, 0x00,
      0x00, 0x00, 0x00, 0x00] =
     Inr [0x01, 0x00, 0x00, 0x00, 0x00,
          0x01, 0x00, 0x00, 0x00, 0x00, 0x00, 0x00, 0x00, 0x00, 0x00,
          0x00, 0x00, 0x00, 0x00] \<and>
   strip_witness_data
     [0x01, 0x00, 0x00, 0x00, 0x00,
      0x01, 0x00, 0x00, 0x00, 0x00, 0x00, 0x00, 0x00, 0x00, 0x00,
      0x00, 0x00, 0x00, 0x00] =
     Inr [0x01, 0x00, 0x00, 0x00, 0x00, 0x00, 0x00, 0x00, 0x00, 0x00] \<and>
   strip_witness_data
     [0x01, 0x00, 0x00, 0x00, 0x00,
      0x01, 0x00, 0x00, 0x00, 0x00, 0x00, 0x00, 0x00, 0x00, 0x00,
      0x00, 0x00, 0x00, 0x00] \<noteq>
     Inr [0x01, 0x00, 0x00, 0x00, 0x00,
          0x01, 0x00, 0x00, 0x00, 0x00, 0x00, 0x00, 0x00, 0x00, 0x00,
          0x00, 0x00, 0x00, 0x00]"
proof (intro conjI)
  show "wf_tx one_output_tx" by (rule wf_one_output_tx)
  show "serialize_segwit one_output_tx =
     [0x01, 0x00, 0x00, 0x00, 0x00, 0x01, 0x00,
      0x01, 0x00, 0x00, 0x00, 0x00, 0x00, 0x00, 0x00, 0x00, 0x00,
      0x00, 0x00, 0x00, 0x00]"
    by (simp add: one_output_tx_def serialize_segwit_def input_section_def
        output_section_def ser_txout_def)
  show "strip_witness_data
     [0x01, 0x00, 0x00, 0x00, 0x00, 0x01, 0x00,
      0x01, 0x00, 0x00, 0x00, 0x00, 0x00, 0x00, 0x00, 0x00, 0x00,
      0x00, 0x00, 0x00, 0x00] =
     Inr [0x01, 0x00, 0x00, 0x00, 0x00,
          0x01, 0x00, 0x00, 0x00, 0x00, 0x00, 0x00, 0x00, 0x00, 0x00,
          0x00, 0x00, 0x00, 0x00]"
    by (simp add: strip_witness_data_def read_varint_def py_index_def py_slice_def
        py_slice_from_def py_bound_def Let_def)
  show second: "strip_witness_data
     [0x01, 0x00, 0x00, 0x00, 0x00,
      0x01, 0x00, 0x00, 0x00, 0x00, 0x00, 0x00, 0x00, 0x00, 0x00,
      0x00, 0x00, 0x00, 0x00] =
     Inr [0x01, 0x00, 0x00, 0x00, 0x00, 0x00, 0x00, 0x00, 0x00, 0x00]"
    by (simp add: strip_witness_data_def read_varint_def py_index_def py_slice_def
        py_slice_from_def py_bound_def Let_def)
  show "strip_witness_data
     [0x01, 0x00, 0x00, 0x00, 0x00,
      0x01, 0x00, 0x00, 0x00, 0x00, 0x00, 0x00, 0x00, 0x00, 0x00,
      0x00, 0x00, 0x00, 0x00] \<noteq>
     Inr [0x01, 0x00, 0x00, 0x00, 0x00,
          0x01, 0x00, 0x00, 0x00, 0x00, 0x00, 0x00, 0x00, 0x00, 0x00,
          0x00, 0x00, 0x00, 0x00]"
    unfolding second by simp
qed

subsection \<open>C5: untagged sequences\<close>

text \<open>
  C5: for every sequence of at least 6 bytes whose bytes at offsets 4 and 5 are not
  \<open>00 01\<close>, the rewrite returns exactly the input, as a result and not as a failure.
\<close>

theorem strip_untagged_unchanged:
  "6 \<le> length raw \<Longrightarrow> \<not> (raw ! 4 = 0x00 \<and> raw ! 5 = 0x01) \<Longrightarrow> strip_witness_data raw = Inr raw"
  by (simp add: strip_witness_data_def marker_slice)

theorem strip_untagged_unchanged_witness:
  "6 \<le> length [1, 0, 0, 0, 1, 2, 3 :: byte] \<and>
   \<not> ([1, 0, 0, 0, 1, 2, 3 :: byte] ! 4 = 0x00 \<and> [1, 0, 0, 0, 1, 2, 3 :: byte] ! 5 = 0x01) \<and>
   strip_witness_data [1, 0, 0, 0, 1, 2, 3] = Inr [1, 0, 0, 0, 1, 2, 3]"
  using strip_untagged_unchanged [of "[1, 0, 0, 0, 1, 2, 3]"] by simp

subsection \<open>C6: what the varint reader decodes\<close>

text \<open>
  C6: when the payload lies inside the sequence, the reader returns the discriminant
  itself and the width 1 for a discriminant below 253, and the next 2, 4, 8 bytes read
  little-endian with the width 3, 5, 9 for the discriminants 253, 254, 255.  The
  values are written as sums over the payload bytes, not through
  \<open>from_bytes_little\<close>.
\<close>

theorem read_varint_decodes:
  "(p < length data \<and> data ! p < 0xfd \<longrightarrow>
      read_varint data (int p) = Inr (unat (data ! p), 1)) \<and>
   (p + 3 \<le> length data \<and> data ! p = 0xfd \<longrightarrow>
      read_varint data (int p) = Inr (\<Sum>i<2. unat (data ! (p + 1 + i)) * 256 ^ i, 3)) \<and>
   (p + 5 \<le> length data \<and> data ! p = 0xfe \<longrightarrow>
      read_varint data (int p) = Inr (\<Sum>i<4. unat (data ! (p + 1 + i)) * 256 ^ i, 5)) \<and>
   (p + 9 \<le> length data \<and> data ! p = 0xff \<longrightarrow>
      read_varint data (int p) = Inr (\<Sum>i<8. unat (data ! (p + 1 + i)) * 256 ^ i, 9))"
proof (intro conjI impI)
  assume "p < length data \<and> data ! p < 0xfd"
  then show "read_varint data (int p) = Inr (unat (data ! p), 1)"
    by (simp add: read_varint_nat)
next
  assume a: "p + 3 \<le> length data \<and> data ! p = 0xfd"
  then have "from_bytes_little (take 2 (drop (Suc p) data)) =
             (\<Sum>i<2. unat (data ! (Suc p + i)) * 256 ^ i)"
    by (intro from_bytes_little_slice) simp
  with a show "read_varint data (int p) =
      Inr (\<Sum>i<2. unat (data ! (p + 1 + i)) * 256 ^ i, 3)"
    by (simp add: read_varint_nat)
next
  assume a: "p + 5 \<le> length data \<and> data ! p = 0xfe"
  then have "from_bytes_little (take 4 (drop (Suc p) data)) =
             (\<Sum>i<4. unat (data ! (Suc p + i)) * 256 ^ i)"
    by (intro from_bytes_little_slice) simp
  with a show "read_varint data (int p) =
      Inr (\<Sum>i<4. unat (data ! (p + 1 + i)) * 256 ^ i, 5)"
    by (simp add: read_varint_nat)
next
  assume a: "p + 9 \<le> length data \<and> data ! p = 0xff"
  then have "from_bytes_little (take 8 (drop (Suc p) data)) =
             (\<Sum>i<8. unat (data ! (Suc p + i)) * 256 ^ i)"
    by (intro from_bytes_little_slice) simp
  with a show "read_varint data (int p) =
      Inr (\<Sum>i<8. unat (data ! (p + 1 + i)) * 256 ^ i, 9)"
    by (simp add: read_varint_nat)
qed

text \<open>The discriminants 0, 252, 253, 254 and 255, with the widths 1, 1, 3, 5 and 9.\<close>

theorem read_varint_decodes_witness:
  "read_varint [0x00] 0 = Inr (0, 1) \<and>
   read_varint [0xfc] 0 = Inr (252, 1) \<and>
   read_varint [0xfd, 0x34, 0x12] 0 = Inr (0x1234, 3) \<and>
   read_varint [0xfe, 0x78, 0x56, 0x34, 0x12] 0 = Inr (0x12345678, 5) \<and>
   read_varint [0xff, 0x01, 0x02, 0x03, 0x04, 0x05, 0x06, 0x07, 0x08] 0 = Inr (0x0807060504030201, 9)"
  using read_varint_decodes [of 0 "[0x00]"]
    read_varint_decodes [of 0 "[0xfc]"]
    read_varint_decodes [of 0 "[0xfd, 0x34, 0x12]"]
    read_varint_decodes [of 0 "[0xfe, 0x78, 0x56, 0x34, 0x12]"]
    read_varint_decodes [of 0 "[0xff, 0x01, 0x02, 0x03, 0x04, 0x05, 0x06, 0x07, 0x08]"]
  by (simp add: lessThan_nat_numeral lessThan_Suc)

subsection \<open>C7: the length of the result\<close>

text \<open>
  C7: for every valid tagged record the result has 4 bytes of version, the bytes of
  the input range, the bytes of the output range and 4 bytes of locktime; the two
  ranges that the cursor delimits are the input section and the output section; and
  the result is shorter than the record, by the two marker bytes and the witness data,
  so in particular whenever the witness data is not empty.
\<close>

theorem strip_length_relation:
  assumes "wf_tx t"
    and "section_ends (serialize_segwit t) = Inr (inputs_end, outputs_end)"
    and "strip_witness_data (serialize_segwit t) = Inr legacy_tx"
  shows "length legacy_tx = 4 + (inputs_end - 6) + (outputs_end - inputs_end) + 4 \<and>
         inputs_end - 6 = length (input_section t) \<and>
         outputs_end - inputs_end = length (output_section t) \<and>
         length (serialize_segwit t) = length legacy_tx + 2 + length (tx_witness t) \<and>
         (tx_witness t \<noteq> [] \<longrightarrow> length legacy_tx < length (serialize_segwit t))"
proof -
  from assms(2) have e: "inputs_end = 6 + length (input_section t)"
      "outputs_end = 6 + length (input_section t) + length (output_section t)"
    by (simp_all add: section_ends_serialized [OF assms(1)])
  from assms(3) have l: "legacy_tx = serialize_legacy t"
    by (simp add: strip_serialized [OF assms(1)])
  show ?thesis
    by (simp add: e l length_serialize_legacy [OF assms(1)]
        length_serialize_segwit [OF assms(1)])
qed

theorem strip_length_relation_witness:
  "wf_tx sample_tx \<and>
   section_ends (serialize_segwit sample_tx) = Inr (48, 60) \<and>
   strip_witness_data (serialize_segwit sample_tx) = Inr sample_legacy \<and>
   length sample_legacy = 4 + (48 - 6) + (60 - 48) + 4 \<and>
   tx_witness sample_tx \<noteq> [] \<and>
   length sample_legacy < length (serialize_segwit sample_tx)"
proof -
  have e: "section_ends (serialize_segwit sample_tx) = Inr (48, 60)"
    by (simp add: section_ends_serialized [OF wf_sample_tx] sections_sample_tx)
  have s: "strip_witness_data (serialize_segwit sample_tx) = Inr sample_legacy"
    by (simp add: strip_serialized [OF wf_sample_tx] legacy_sample_tx)
  have w: "tx_witness sample_tx \<noteq> []"
    by (simp add: sample_tx_def)
  show ?thesis
    using strip_length_relation [OF wf_sample_tx e s] wf_sample_tx e s w by simp
qed

subsection \<open>C8: the assembly\<close>

text \<open>
  C8: for every valid tagged record the result is the version, the input section
  (from the input count's own encoding on), the output section and the locktime, in
  this order; these are the bytes 0 to 3, the range from offset 6 to the end of the
  inputs, the range from there to the end of the outputs, and the last 4 bytes of the
  record.  The result is the record read at the offsets 0..3, 6..outputs_end - 1 and
  the last four, so the marker at offsets 4 and 5 and the witness data are left out
  and nothing else is put in.
\<close>

theorem strip_assembly:
  assumes "wf_tx t"
  shows "let raw = serialize_segwit t;
             inputs_end = 6 + length (input_section t);
             outputs_end = inputs_end + length (output_section t)
         in has_marker raw \<and>
            strip_witness_data raw =
              Inr (tx_version t @ input_section t @ output_section t @ tx_locktime t) \<and>
            section_ends raw = Inr (inputs_end, outputs_end) \<and>
            tx_version t = take 4 raw \<and>
            input_section t = take (inputs_end - 6) (drop 6 raw) \<and>
            output_section t = take (outputs_end - inputs_end) (drop inputs_end raw) \<and>
            tx_locktime t = drop (length raw - 4) raw \<and>
            outputs_end + 4 \<le> length raw \<and>
            strip_witness_data raw =
              Inr (map ((!) raw) ([0..<4] @ [6..<outputs_end] @ [length raw - 4..<length raw]))"
proof -
  note parts = wf_tx_parts [OF assms]
  define raw where "raw = serialize_segwit t"
  define n where "n = length (input_section t) + length (output_section t)"
  have len: "length raw = 10 + n + length (tx_witness t)"
    by (simp add: raw_def n_def length_serialize_segwit [OF assms])
  have hm: "has_marker raw"
    using parts(1) by (simp add: has_marker_def raw_def serialize_segwit_def nth_append)
  have s: "strip_witness_data raw =
        Inr (tx_version t @ input_section t @ output_section t @ tx_locktime t)"
    using strip_serialized [OF assms] by (simp add: raw_def serialize_legacy_def)
  have v: "tx_version t = take 4 raw"
    using parts(1) by (simp add: raw_def serialize_segwit_def)
  have i: "input_section t = take (length (input_section t)) (drop 6 raw)"
    using parts(1) by (simp add: raw_def serialize_segwit_def)
  have out: "output_section t =
        take (length (output_section t)) (drop (6 + length (input_section t)) raw)"
    using parts(1) by (simp add: raw_def serialize_segwit_def)
  have io: "input_section t @ output_section t = take n (drop 6 raw)"
    using parts(1) by (simp add: raw_def serialize_segwit_def n_def)
  have l: "tx_locktime t = drop (length raw - 4) raw"
    using parts(1,6) by (simp add: raw_def serialize_segwit_def)
  have ge: "10 + n \<le> length raw"
    using len by simp
  have m1: "take 4 raw = map ((!) raw) [0..<4]"
    using slice_map_nth [of 0 4 raw] ge by simp
  have m2: "take n (drop 6 raw) = map ((!) raw) [6..<6 + n]"
    using slice_map_nth [of 6 n raw] ge by simp
  have m3: "drop (length raw - 4) raw = map ((!) raw) [length raw - 4..<length raw]"
    using slice_map_nth [of "length raw - 4" 4 raw] ge by simp
  have "tx_version t @ (input_section t @ output_section t) @ tx_locktime t =
        map ((!) raw) [0..<4] @ map ((!) raw) [6..<6 + n] @
        map ((!) raw) [length raw - 4..<length raw]"
    using v io l m1 m2 m3 by simp
  then have m: "tx_version t @ input_section t @ output_section t @ tx_locktime t =
        map ((!) raw) ([0..<4] @ [6..<6 + n] @ [length raw - 4..<length raw])"
    by simp
  show ?thesis
    unfolding Let_def raw_def [symmetric]
    using hm s section_ends_serialized [OF assms] v i out l len m
    by (simp add: raw_def [symmetric] n_def add.assoc)
qed

theorem strip_assembly_witness:
  "wf_tx sample_tx \<and> serialize_segwit sample_tx = sample_raw \<and>
   sample_raw ! 4 = 0x00 \<and> sample_raw ! 5 = 0x01 \<and>
   strip_witness_data sample_raw = Inr sample_legacy \<and>
   section_ends sample_raw = Inr (48, 60) \<and>
   strip_witness_data sample_raw =
     Inr (map ((!) sample_raw) ([0..<4] @ [6..<60] @ [63..<67]))"
  using strip_assembly [OF wf_sample_tx]
  by (simp add: Let_def wf_sample_tx serialize_sample_tx sections_sample_tx)
     (simp add: sample_tx_def sample_legacy_def sample_raw_def input_section_def
      output_section_def ser_txin_def ser_txout_def upt_conv_Cons)

subsection \<open>C9: termination\<close>

text \<open>
  C9: the rewrite ends on every input, whether it returns or raises.  With the loops
  written as loops and every pass through a loop body paid with one unit of fuel,
  as many units as the sequence has bytes are enough on every input, and the outcome
  is then the value of \<open>strip_witness_data\<close>, so the rewrite is a function of the bytes
  with a number of passes that is at most linear in their number.  Whatever it
  returns with less fuel is that same value.  When the rewrite of a marker-bearing
  sequence gets through both counts and both loops, the fuel it needs is exactly the
  decoded input count plus the decoded output count: each loop body is passed
  exactly count times, and with one unit less the second model does not return.
\<close>

theorem strip_terminates:
  "(length raw \<le> fuel \<longrightarrow> strip_witness_data_fuel fuel raw = Some (strip_witness_data raw)) \<and>
   (\<forall>r. strip_witness_data_fuel fuel raw = Some r \<longrightarrow> r = strip_witness_data raw) \<and>
   (has_marker raw \<and>
    read_varint raw 6 = Inr (input_count, vs) \<and>
    walk_inputs raw input_count (6 + vs) = Inr inputs_end \<and>
    read_varint raw (int inputs_end) = Inr (output_count, vs') \<and>
    walk_outputs raw output_count (inputs_end + vs') = Inr outputs_end \<longrightarrow>
      (input_count + output_count \<le> fuel \<longrightarrow>
         strip_witness_data_fuel fuel raw = Some (strip_witness_data raw)) \<and>
      (fuel < input_count + output_count \<longrightarrow> strip_witness_data_fuel fuel raw = None))"
proof (intro conjI impI allI)
  assume "length raw \<le> fuel"
  with strip_iterations_linear [of raw] have "strip_iterations raw \<le> fuel"
    by simp
  then show "strip_witness_data_fuel fuel raw = Some (strip_witness_data raw)"
    by (simp add: strip_fuel_eq)
next
  fix r
  assume "strip_witness_data_fuel fuel raw = Some r"
  then show "r = strip_witness_data raw"
    by (simp add: strip_fuel_eq split: if_splits)
next
  assume h: "has_marker raw \<and>
    read_varint raw 6 = Inr (input_count, vs) \<and>
    walk_inputs raw input_count (6 + vs) = Inr inputs_end \<and>
    read_varint raw (int inputs_end) = Inr (output_count, vs') \<and>
    walk_outputs raw output_count (inputs_end + vs') = Inr outputs_end"
  then have n: "strip_iterations raw = input_count + output_count"
    using strip_iterations_counts by blast
  {
    assume "input_count + output_count \<le> fuel"
    then show "strip_witness_data_fuel fuel raw = Some (strip_witness_data raw)"
      by (simp add: strip_fuel_eq n)
  }
  {
    assume "fuel < input_count + output_count"
    then show "strip_witness_data_fuel fuel raw = None"
      by (simp add: strip_fuel_eq n)
  }
qed

text \<open>The sample record has one input and one output: 2 units of fuel are enough and
  1 is not.  A sequence of seven bytes that announces one input raises IndexError in
  the first pass, within its 7 units.\<close>

theorem strip_terminates_witness:
  "length sample_raw \<le> 67 \<and>
   strip_witness_data_fuel 67 sample_raw = Some (Inr sample_legacy) \<and>
   has_marker sample_raw \<and>
   read_varint sample_raw 6 = Inr (1, 1) \<and>
   walk_inputs sample_raw 1 7 = Inr 48 \<and>
   read_varint sample_raw 48 = Inr (1, 1) \<and>
   walk_outputs sample_raw 1 49 = Inr 60 \<and>
   strip_witness_data_fuel 2 sample_raw = Some (Inr sample_legacy) \<and>
   strip_witness_data_fuel 1 sample_raw = None \<and>
   strip_witness_data_fuel 7 [0x01, 0x00, 0x00, 0x00, 0x00, 0x01, 0x01] = Some (Inl IndexError)"
proof -
  have l: "length sample_raw \<le> 67"
    by (simp add: sample_raw_def)
  have m: "has_marker sample_raw"
    by (simp add: has_marker_def sample_raw_def)
  have r1: "read_varint sample_raw 6 = Inr (1, 1)"
    by (simp add: sample_raw_def read_varint_def py_index_def)
  have w1: "walk_inputs sample_raw 1 (6 + 1) = Inr 48"
    by (simp add: sample_raw_def read_varint_def py_index_def)
  have r2: "read_varint sample_raw (int 48) = Inr (1, 1)"
    by (simp add: sample_raw_def read_varint_def py_index_def)
  have w2: "walk_outputs sample_raw 1 (48 + 1) = Inr 60"
    by (simp add: sample_raw_def read_varint_def py_index_def)
  have s: "strip_witness_data sample_raw = Inr sample_legacy"
    using strip_serialized [OF wf_sample_tx]
    by (simp add: serialize_sample_tx legacy_sample_tx)
  have e: "strip_witness_data [0x01, 0x00, 0x00, 0x00, 0x00, 0x01, 0x01] = Inl IndexError"
    by (simp add: strip_witness_data_def read_varint_def py_index_def py_slice_def
        py_bound_def Let_def)
  have h: "has_marker sample_raw \<and>
    read_varint sample_raw 6 = Inr (1, 1) \<and>
    walk_inputs sample_raw 1 (6 + 1) = Inr 48 \<and>
    read_varint sample_raw (int 48) = Inr (1, 1) \<and>
    walk_outputs sample_raw 1 (48 + 1) = Inr 60"
    by (intro conjI) (rule m r1 w1 r2 w2)+
  have a: "strip_witness_data_fuel 67 sample_raw = Some (strip_witness_data sample_raw)"
    by (rule strip_terminates [where raw = sample_raw and fuel = 67 and input_count = 1
          and vs = 1 and inputs_end = 48 and output_count = 1 and vs' = 1 and outputs_end = 60,
          THEN conjunct1, THEN mp, OF l])
  have b: "strip_witness_data_fuel 2 sample_raw = Some (strip_witness_data sample_raw)"
  proof -
    have "(1::nat) + 1 \<le> 2" by simp
    with strip_terminates [where raw = sample_raw and fuel = 2 and input_count = 1
        and vs = 1 and inputs_end = 48 and output_count = 1 and vs' = 1 and outputs_end = 60] h
    show ?thesis by blast
  qed
  have c: "strip_witness_data_fuel 1 sample_raw = None"
  proof -
    have "(1::nat) < 1 + 1" by simp
    with strip_terminates [where raw = sample_raw and fuel = 1 and input_count = 1
        and vs = 1 and inputs_end = 48 and output_count = 1 and vs' = 1 and outputs_end = 60] h
    show ?thesis by blast
  qed
  have d: "strip_witness_data_fuel 7 [0x01, 0x00, 0x00, 0x00, 0x00, 0x01, 0x01] =
           Some (strip_witness_data [0x01, 0x00, 0x00, 0x00, 0x00, 0x01, 0x01])"
  proof -
    have "length [0x01, 0x00, 0x00, 0x00, 0x00, 0x01, 0x01 :: byte] \<le> 7" by simp
    then show ?thesis
      by (rule strip_terminates [where raw = "[0x01, 0x00, 0x00, 0x00, 0x00, 0x01, 0x01]"
            and fuel = 7 and input_count = 1 and vs = 1 and inputs_end = 48
            and output_count = 1 and vs' = 1 and outputs_end = 60,
            THEN conjunct1, THEN mp])
  qed
  show ?thesis
    using l m r1 w1 r2 w2 a b c d by (simp add: s e)
qed

subsection \<open>C10: the result is made of slices of the input\<close>

text \<open>
  C10: whenever the rewrite of a marker-bearing sequence returns, the result is the
  concatenation of four slices of the input (bytes 0 to 3, the inputs slice from offset
  6, the outputs slice, the last 4 bytes), each a contiguous piece of the input, so
  every byte of the result occurs in the input; this holds also when the cursor has
  run past the end, since the slice bounds are clamped.
\<close>

theorem strip_result_from_slices:
  assumes "has_marker raw" and "strip_witness_data raw = Inr legacy_tx"
  shows "\<exists>inputs_end outputs_end.
           section_ends raw = Inr (inputs_end, outputs_end) \<and>
           legacy_tx = py_slice raw 0 4 @ py_slice raw 6 (int inputs_end) @
                       py_slice raw (int inputs_end) (int outputs_end) @
                       py_slice_from raw (- 4) \<and>
           sublist (py_slice raw 0 4) raw \<and>
           sublist (py_slice raw 6 (int inputs_end)) raw \<and>
           sublist (py_slice raw (int inputs_end) (int outputs_end)) raw \<and>
           sublist (py_slice_from raw (- 4)) raw \<and>
           set legacy_tx \<subseteq> set raw"
proof (cases "section_ends raw")
  case (Inl e)
  with assms show ?thesis by (simp add: strip_marker)
next
  case (Inr r)
  obtain inputs_end outputs_end where r: "r = (inputs_end, outputs_end)"
    by (cases r)
  have l: "legacy_tx = py_slice raw 0 4 @ py_slice raw 6 (int inputs_end) @
                       py_slice raw (int inputs_end) (int outputs_end) @
                       py_slice_from raw (- 4)"
    using assms Inr r
    by (simp add: strip_marker py_slice_version py_slice_inputs py_slice_nat
        py_slice_from_last4)
  have "set legacy_tx \<subseteq> set raw"
    unfolding l
    by (simp add: set_mono_sublist [OF sublist_py_slice]
        set_mono_sublist [OF sublist_py_slice_from])
  with l Inr r show ?thesis
    by (simp add: sublist_py_slice sublist_py_slice_from)
qed

text \<open>The cursor ends at 22 in a sequence of 19 bytes, and the rewrite returns 21 bytes.\<close>

theorem strip_result_from_slices_witness:
  "has_marker overrun_raw \<and>
   strip_witness_data overrun_raw =
     Inr [0x01, 0x00, 0x00, 0x00, 0x00,
          0x01, 0x00, 0x00, 0x00, 0x00, 0x00, 0x00, 0x00, 0x00, 0x05, 0xaa, 0xbb,
          0x00, 0x05, 0xaa, 0xbb] \<and>
   section_ends overrun_raw = Inr (7, 22) \<and>
   length overrun_raw = 19"
proof -
  have m: "has_marker overrun_raw"
    by (simp add: has_marker_def overrun_raw_def)
  have s: "strip_witness_data overrun_raw =
     Inr [0x01, 0x00, 0x00, 0x00, 0x00,
          0x01, 0x00, 0x00, 0x00, 0x00, 0x00, 0x00, 0x00, 0x00, 0x05, 0xaa, 0xbb,
          0x00, 0x05, 0xaa, 0xbb]"
    by (simp add: overrun_raw_def strip_witness_data_def read_varint_def py_index_def
        py_slice_def py_slice_from_def py_bound_def Let_def)
  have e: "section_ends overrun_raw = Inr (7, 22)"
    by (simp add: overrun_raw_def section_ends_def read_varint_def py_index_def)
  show ?thesis
    using strip_result_from_slices [OF m s] m s e by (simp add: overrun_raw_def)
qed

end
